theory Spec2Isabelle
  imports Main
begin

section \<open>Constants (src/constants.js)\<close>

datatype order_type = NORMAL | VIP

datatype order_status = PENDING | PROCESSING | COMPLETE

text \<open>\<open>BOT_STATUS.PROCESSING\<close> is written \<open>BOT_PROCESSING\<close>: the constructor name
  \<open>PROCESSING\<close> is taken by the order status.\<close>

datatype bot_status = IDLE | BOT_PROCESSING

definition STARTING_ORDER_NUMBER :: int where
  "STARTING_ORDER_NUMBER = 1001"

definition STARTING_BOT_ID :: int where
  "STARTING_BOT_ID = 1"

section \<open>Object references\<close>

text \<open>JavaScript objects are shared by reference: one \<open>Order\<close> object is reachable from the
  controller's list of all orders, from the queue, from a bot and from the completed list, and
  a status change through one reference is seen through all of them. Objects therefore live in
  stores indexed by references; lists and fields hold references.\<close>

type_synonym oref = nat
type_synonym bref = nat
type_synonym timer = nat

section \<open>Order model (src/models/order.js)\<close>

text \<open>The field \<open>type\<close> is written \<open>otype\<close> and \<open>status\<close> is written \<open>ostatus\<close> (the bot has a
  \<open>status\<close> of its own). The wall-clock field \<open>createdAt\<close> is never read by the code and is
  left out.\<close>

record order =
  orderNumber :: int
  otype :: order_type
  ostatus :: order_status

definition Order :: "int \<Rightarrow> order_type \<Rightarrow> order" where
  "Order n ty = \<lparr>orderNumber = n, otype = ty, ostatus = PENDING\<rparr>"

definition order_startProcessing :: "order \<Rightarrow> order" where
  "order_startProcessing ord = ord\<lparr>ostatus := PROCESSING\<rparr>"

definition complete :: "order \<Rightarrow> order" where
  "complete ord = ord\<lparr>ostatus := COMPLETE\<rparr>"

definition returnToPending :: "order \<Rightarrow> order" where
  "returnToPending ord = ord\<lparr>ostatus := PENDING\<rparr>"

definition isVIP :: "order \<Rightarrow> bool" where
  "isVIP ord = (otype ord = VIP)"

section \<open>Order queue (src/services/orderQueue.js)\<close>

record order_queue =
  orders :: "oref list"
  vipOrderCount :: int

definition newOrderQueue :: order_queue where
  "newOrderQueue = \<lparr>orders = [], vipOrderCount = 0\<rparr>"

text \<open>\<open>Array.prototype.splice(start, 0, x)\<close>: a negative \<open>start\<close> counts from the end and is
  clamped at 0, a \<open>start\<close> beyond the length is clamped at the length.\<close>

definition splice_insert :: "int \<Rightarrow> 'a \<Rightarrow> 'a list \<Rightarrow> 'a list" where
  "splice_insert start x xs =
     (let len = int (length xs);
          i = (if start < 0 then max (len + start) 0 else min start len)
      in take (nat i) xs @ x # drop (nat i) xs)"

text \<open>The queue reads \<open>order.isVIP()\<close> through the reference, hence the order store \<open>h\<close>.\<close>

definition enqueue :: "(oref \<Rightarrow> order) \<Rightarrow> order_queue \<Rightarrow> oref \<Rightarrow> order_queue" where
  "enqueue h q r =
     (if isVIP (h r)
      then q\<lparr>orders := splice_insert (vipOrderCount q) r (orders q),
             vipOrderCount := vipOrderCount q + 1\<rparr>
      else q\<lparr>orders := orders q @ [r]\<rparr>)"

text \<open>\<open>dequeue\<close> returns \<open>None\<close> for JavaScript's \<open>null\<close>.\<close>

definition dequeue :: "(oref \<Rightarrow> order) \<Rightarrow> order_queue \<Rightarrow> oref option \<times> order_queue" where
  "dequeue h q =
     (case orders q of
        [] \<Rightarrow> (None, q)
      | r # rest \<Rightarrow>
          (Some r,
           if isVIP (h r)
           then q\<lparr>orders := rest, vipOrderCount := vipOrderCount q - 1\<rparr>
           else q\<lparr>orders := rest\<rparr>))"

definition queue_size :: "order_queue \<Rightarrow> nat" where
  "queue_size q = length (orders q)"

definition isEmpty :: "order_queue \<Rightarrow> bool" where
  "isEmpty q = (length (orders q) = 0)"

definition getAll :: "order_queue \<Rightarrow> oref list" where
  "getAll q = orders q"

definition clear :: "order_queue \<Rightarrow> order_queue" where
  "clear q = q\<lparr>orders := [], vipOrderCount := 0\<rparr>"

subsection \<open>Sequences of queue mutator calls\<close>

datatype queue_call = Enqueue oref | Dequeue | Clear

fun queue_apply :: "(oref \<Rightarrow> order) \<Rightarrow> queue_call \<Rightarrow> order_queue \<Rightarrow> order_queue" where
  "queue_apply h (Enqueue r) q = enqueue h q r"
| "queue_apply h Dequeue q = snd (dequeue h q)"
| "queue_apply h Clear q = clear q"

fun queue_run :: "(oref \<Rightarrow> order) \<Rightarrow> queue_call list \<Rightarrow> order_queue \<Rightarrow> order_queue" where
  "queue_run h [] q = q"
| "queue_run h (c # cs) q = queue_run h cs (queue_apply h c q)"

subsection \<open>The two-sequence reference model of the specification\<close>

text \<open>Written from the specification's words, to compare the code with: the VIP orders in
  enqueue order and the normal orders in enqueue order, read as their concatenation. A
  dequeue takes the front of the concatenation.\<close>

record two_seq =
  vipSeq :: "oref list"
  normalSeq :: "oref list"

definition two_seq_empty :: two_seq where
  "two_seq_empty = \<lparr>vipSeq = [], normalSeq = []\<rparr>"

fun two_seq_apply :: "(oref \<Rightarrow> order) \<Rightarrow> queue_call \<Rightarrow> two_seq \<Rightarrow> two_seq" where
  "two_seq_apply h (Enqueue r) s =
     (if isVIP (h r) then s\<lparr>vipSeq := vipSeq s @ [r]\<rparr> else s\<lparr>normalSeq := normalSeq s @ [r]\<rparr>)"
| "two_seq_apply h Dequeue s =
     (case vipSeq s of
        _ # vs \<Rightarrow> s\<lparr>vipSeq := vs\<rparr>
      | [] \<Rightarrow> s\<lparr>normalSeq := tl (normalSeq s)\<rparr>)"
| "two_seq_apply h Clear s = two_seq_empty"

fun two_seq_run :: "(oref \<Rightarrow> order) \<Rightarrow> queue_call list \<Rightarrow> two_seq \<Rightarrow> two_seq" where
  "two_seq_run h [] s = s"
| "two_seq_run h (c # cs) s = two_seq_run h cs (two_seq_apply h c s)"

text \<open>The relation between a queue and a state of the reference model.\<close>

definition queue_abs :: "(oref \<Rightarrow> order) \<Rightarrow> order_queue \<Rightarrow> two_seq \<Rightarrow> bool" where
  "queue_abs h q s \<longleftrightarrow>
     orders q = vipSeq s @ normalSeq s \<and>
     vipOrderCount q = int (length (vipSeq s)) \<and>
     (\<forall>r \<in> set (vipSeq s). isVIP (h r)) \<and>
     (\<forall>r \<in> set (normalSeq s). \<not> isVIP (h r))"

section \<open>Bot model (src/models/bot.js)\<close>

text \<open>The field \<open>status\<close> is written \<open>bstatus\<close>. \<open>currentOrder\<close> and \<open>processingTimeout\<close> are
  \<open>null\<close> or a reference; Node's \<open>setTimeout\<close> returns a \<open>Timeout\<close> object, so a handle is
  always truthy and \<open>if (this.processingTimeout)\<close> tests for \<open>Some\<close>.\<close>

record bot =
  botId :: int
  bstatus :: bot_status
  currentOrder :: "oref option"
  processingTimeout :: "timer option"

definition Bot :: "int \<Rightarrow> bot" where
  "Bot n = \<lparr>botId = n, bstatus = IDLE, currentOrder = None, processingTimeout = None\<rparr>"

definition isIdle :: "bot \<Rightarrow> bool" where
  "isIdle b = (bstatus b = IDLE)"

section \<open>The world: object stores, pending timers and the controller\<close>

text \<open>The completion callbacks are closures. The only closure the controller builds is
  \<open>(completedOrder) => this._onOrderCompleted(bot, completedOrder)\<close>, represented by
  \<open>OnOrderCompleted bot\<close>; \<open>Noop\<close> stands for the empty callback \<open>() => {}\<close> of the tests.\<close>

datatype callback = OnOrderCompleted bref | Noop

text \<open>What the controller passes to its logger: the formatted line without the clock time,
  as the values interpolated into it.\<close>

datatype message =
    OrderCreated order_type int order_status
  | BotCreated int
  | BotDestroyedProcessing int int
  | BotDestroyedIdle int
  | BotPickedUp int order_type int order_status
  | BotCompleted int order_type int order_status
  | BotNowIdle int

text \<open>The exceptions: the \<open>Error\<close> thrown by \<open>Bot.startProcessing\<close>, the \<open>TypeError\<close> of a method
  call on \<open>null\<close>, and whatever the injected logger throws.\<close>

datatype error = BotAlreadyProcessing | TypeError | LoggerError

text \<open>One record holds the JavaScript heap (the \<open>Order\<close> and \<open>Bot\<close> objects with the next free
  reference of each), the timeouts pending in the event loop (handle to the closure
  \<open>() => bot.completeOrder(onComplete)\<close>, kept as the pair of its captured variables), and the
  fields of the one \<open>OrderController\<close> (src/orderController.js). The controller's field \<open>orders\<close>
  is written \<open>allOrders\<close> (the queue has an \<open>orders\<close> of its own). The injected logger is
  any function of the messages passed so far and the current one that says whether the call
  throws; \<open>calls\<close> records every message passed to it.\<close>

record world =
  ostore :: "oref \<Rightarrow> order"
  onew :: nat
  bstore :: "bref \<Rightarrow> bot"
  bnew :: nat
  timers :: "timer \<rightharpoonup> bref \<times> callback option"
  tnew :: nat
  logger :: "message list \<Rightarrow> message \<Rightarrow> bool"
  calls :: "message list"
  allOrders :: "oref list"
  orderQueue :: order_queue
  completedOrders :: "oref list"
  bots :: "bref list"
  nextOrderNumber :: int
  nextBotId :: int

definition upd_order :: "oref \<Rightarrow> (order \<Rightarrow> order) \<Rightarrow> world \<Rightarrow> world" where
  "upd_order r f w = w\<lparr>ostore := (ostore w)(r := f (ostore w r))\<rparr>"

definition upd_bot :: "bref \<Rightarrow> (bot \<Rightarrow> bot) \<Rightarrow> world \<Rightarrow> world" where
  "upd_bot b f w = w\<lparr>bstore := (bstore w)(b := f (bstore w b))\<rparr>"

definition setTimeout :: "bref \<times> callback option \<Rightarrow> world \<Rightarrow> timer \<times> world" where
  "setTimeout closure w =
     (tnew w, w\<lparr>timers := (timers w)(tnew w \<mapsto> closure), tnew := tnew w + 1\<rparr>)"

definition clearTimeout :: "timer \<Rightarrow> world \<Rightarrow> world" where
  "clearTimeout t w = w\<lparr>timers := (timers w)(t := None)\<rparr>"

text \<open>A call either throws (\<open>Inl\<close>) or returns (\<open>Inr\<close>); the world it leaves behind is kept in
  both cases, since a JavaScript exception undoes nothing.\<close>

definition andThen ::
  "(world \<Rightarrow> (error + 'a) \<times> world) \<Rightarrow> ('a \<Rightarrow> world \<Rightarrow> (error + 'b) \<times> world)
     \<Rightarrow> world \<Rightarrow> (error + 'b) \<times> world" where
  "andThen m f w = (case m w of (Inl e, w') \<Rightarrow> (Inl e, w') | (Inr a, w') \<Rightarrow> f a w')"

subsection \<open>Bot methods\<close>

definition startProcessing ::
  "bref \<Rightarrow> oref option \<Rightarrow> callback option \<Rightarrow> world \<Rightarrow> (error + unit) \<times> world" where
  "startProcessing b order onComplete w =
     (if bstatus (bstore w b) \<noteq> IDLE then (Inl BotAlreadyProcessing, w)
      else
        let w1 = upd_bot b (\<lambda>x. x\<lparr>currentOrder := order, bstatus := BOT_PROCESSING\<rparr>) w
        in case order of
             None \<Rightarrow> (Inl TypeError, w1)
           | Some r \<Rightarrow>
               let w2 = upd_order r order_startProcessing w1;
                   (t, w3) = setTimeout (b, onComplete) w2
               in (Inr (), upd_bot b (\<lambda>x. x\<lparr>processingTimeout := Some t\<rparr>) w3))"

definition stopProcessing :: "bref \<Rightarrow> world \<Rightarrow> oref option \<times> world" where
  "stopProcessing b w =
     (let w1 = (case processingTimeout (bstore w b) of
                  Some t \<Rightarrow> upd_bot b (\<lambda>x. x\<lparr>processingTimeout := None\<rparr>) (clearTimeout t w)
                | None \<Rightarrow> w)
      in case currentOrder (bstore w1 b) of
           Some r \<Rightarrow>
             (Some r,
              upd_bot b (\<lambda>x. x\<lparr>currentOrder := None, bstatus := IDLE\<rparr>)
                (upd_order r returnToPending w1))
         | None \<Rightarrow> (None, w1))"

subsection \<open>Controller (src/orderController.js)\<close>

definition newController :: "(message list \<Rightarrow> message \<Rightarrow> bool) \<Rightarrow> world" where
  "newController lg =
     \<lparr>ostore = (\<lambda>_. Order 0 NORMAL), onew = 0,
      bstore = (\<lambda>_. Bot 0), bnew = 0,
      timers = Map.empty, tnew = 0,
      logger = lg, calls = [],
      allOrders = [], orderQueue = newOrderQueue, completedOrders = [], bots = [],
      nextOrderNumber = STARTING_ORDER_NUMBER, nextBotId = STARTING_BOT_ID\<rparr>"

definition call_logger :: "message \<Rightarrow> world \<Rightarrow> (error + unit) \<times> world" where
  "call_logger m w =
     (if logger w (calls w) m
      then (Inl LoggerError, w\<lparr>calls := calls w @ [m]\<rparr>)
      else (Inr (), w\<lparr>calls := calls w @ [m]\<rparr>))"

text \<open>The \<open>for\<close> loop of \<open>_assignOrdersToIdleBots\<close> over the idle bots found before the loop.
  \<open>dequeue\<close> cannot return \<open>null\<close> right after \<open>isEmpty\<close> was false; were it to, the call
  \<open>bot.startProcessing(null, ...)\<close> would throw, which is what the \<open>None\<close> branch keeps.\<close>

fun assignLoop :: "bref list \<Rightarrow> world \<Rightarrow> (error + unit) \<times> world" where
  "assignLoop [] w = (Inr (), w)"
| "assignLoop (b # rest) w =
     (if isEmpty (orderQueue w) then (Inr (), w)
      else
        case dequeue (ostore w) (orderQueue w) of
          (None, q) \<Rightarrow>
            startProcessing b None (Some (OnOrderCompleted b)) (w\<lparr>orderQueue := q\<rparr>)
        | (Some r, q) \<Rightarrow>
            andThen (startProcessing b (Some r) (Some (OnOrderCompleted b)))
              (\<lambda>_. andThen
                 (\<lambda>w'. call_logger
                    (BotPickedUp (botId (bstore w' b)) (otype (ostore w' r))
                       (orderNumber (ostore w' r)) (ostatus (ostore w' r))) w')
                 (\<lambda>_. assignLoop rest))
              (w\<lparr>orderQueue := q\<rparr>))"

definition assignOrdersToIdleBots :: "world \<Rightarrow> (error + unit) \<times> world" where
  "assignOrdersToIdleBots w =
     (let idleBots = filter (\<lambda>b. isIdle (bstore w b)) (bots w)
      in if length idleBots = 0 \<or> isEmpty (orderQueue w) then (Inr (), w)
         else assignLoop idleBots w)"

definition createOrder :: "order_type \<Rightarrow> world \<Rightarrow> (error + oref) \<times> world" where
  "createOrder ty w =
     (let r = onew w;
          w1 = w\<lparr>ostore := (ostore w)(r := Order (nextOrderNumber w) ty), onew := r + 1,
                 nextOrderNumber := nextOrderNumber w + 1\<rparr>;
          w2 = w1\<lparr>allOrders := allOrders w1 @ [r]\<rparr>;
          w3 = w2\<lparr>orderQueue := enqueue (ostore w2) (orderQueue w2) r\<rparr>
      in andThen
           (call_logger (OrderCreated ty (orderNumber (ostore w3 r)) (ostatus (ostore w3 r))))
           (\<lambda>_. andThen assignOrdersToIdleBots (\<lambda>_ w'. (Inr r, w')))
           w3)"

definition createNormalOrder :: "world \<Rightarrow> (error + oref) \<times> world" where
  "createNormalOrder = createOrder NORMAL"

definition createVIPOrder :: "world \<Rightarrow> (error + oref) \<times> world" where
  "createVIPOrder = createOrder VIP"

definition addBot :: "world \<Rightarrow> (error + bref) \<times> world" where
  "addBot w =
     (let b = bnew w;
          w1 = w\<lparr>bstore := (bstore w)(b := Bot (nextBotId w)), bnew := b + 1,
                 nextBotId := nextBotId w + 1\<rparr>;
          w2 = w1\<lparr>bots := bots w1 @ [b]\<rparr>
      in andThen (call_logger (BotCreated (botId (bstore w2 b))))
           (\<lambda>_. andThen assignOrdersToIdleBots (\<lambda>_ w'. (Inr b, w')))
           w2)"

definition removeBot :: "world \<Rightarrow> (error + bref option) \<times> world" where
  "removeBot w =
     (if length (bots w) = 0 then (Inr None, w)
      else
        let b = last (bots w);
            w1 = w\<lparr>bots := butlast (bots w)\<rparr>;
            (order, w2) = stopProcessing b w1
        in andThen
             (case order of
                Some r \<Rightarrow>
                  (\<lambda>w2. call_logger
                     (BotDestroyedProcessing (botId (bstore w2 b)) (orderNumber (ostore w2 r)))
                     (w2\<lparr>orderQueue := enqueue (ostore w2) (orderQueue w2) r\<rparr>))
              | None \<Rightarrow> call_logger (BotDestroyedIdle (botId (bstore w2 b))))
             (\<lambda>_. andThen
                (case order of
                   Some r \<Rightarrow> assignOrdersToIdleBots
                 | None \<Rightarrow> (\<lambda>w'. (Inr (), w')))
                (\<lambda>_ w'. (Inr (Some b), w')))
             w2)"

definition onOrderCompleted :: "bref \<Rightarrow> oref \<Rightarrow> world \<Rightarrow> (error + unit) \<times> world" where
  "onOrderCompleted b r w =
     (let w1 = w\<lparr>completedOrders := completedOrders w @ [r]\<rparr>
      in andThen
           (call_logger
              (BotCompleted (botId (bstore w1 b)) (otype (ostore w1 r))
                 (orderNumber (ostore w1 r)) (ostatus (ostore w1 r))))
           (\<lambda>_. andThen assignOrdersToIdleBots
              (\<lambda>_ w'. if isEmpty (orderQueue w') \<and> isIdle (bstore w' b)
                       then call_logger (BotNowIdle (botId (bstore w' b))) w'
                       else (Inr (), w')))
           w1)"

definition getPendingOrders :: "world \<Rightarrow> oref list" where
  "getPendingOrders w = getAll (orderQueue w)"

definition getCompletedOrders :: "world \<Rightarrow> oref list" where
  "getCompletedOrders w = completedOrders w"

definition getBots :: "world \<Rightarrow> bref list" where
  "getBots w = bots w"

subsection \<open>Timer expiry\<close>

fun invoke :: "callback \<Rightarrow> oref \<Rightarrow> world \<Rightarrow> (error + unit) \<times> world" where
  "invoke (OnOrderCompleted b) r w = onOrderCompleted b r w"
| "invoke Noop r w = (Inr (), w)"

text \<open>\<open>Bot.completeOrder\<close>; it stands after the controller because it runs the callback.\<close>

definition completeOrder :: "bref \<Rightarrow> callback option \<Rightarrow> world \<Rightarrow> (error + unit) \<times> world" where
  "completeOrder b onComplete w =
     (let w1 = (case processingTimeout (bstore w b) of
                  Some t \<Rightarrow> upd_bot b (\<lambda>x. x\<lparr>processingTimeout := None\<rparr>) (clearTimeout t w)
                | None \<Rightarrow> w)
      in case currentOrder (bstore w1 b) of
           Some r \<Rightarrow>
             (let w2 = upd_order r complete w1;
                  w3 = upd_bot b (\<lambda>x. x\<lparr>currentOrder := None, bstatus := IDLE\<rparr>) w2
              in case onComplete of
                   Some cb \<Rightarrow> invoke cb r w3
                 | None \<Rightarrow> (Inr (), w3))
         | None \<Rightarrow> (Inr (), upd_bot b (\<lambda>x. x\<lparr>bstatus := IDLE\<rparr>) w1))"

text \<open>The event loop runs the closure of a pending timeout and drops the timeout; a handle
  that is not pending (never set, cleared, or already run) runs nothing.\<close>

definition timerFires :: "timer \<Rightarrow> world \<Rightarrow> (error + unit) \<times> world" where
  "timerFires t w =
     (case timers w t of
        None \<Rightarrow> (Inr (), w)
      | Some (b, onComplete) \<Rightarrow> completeOrder b onComplete (w\<lparr>timers := (timers w)(t := None)\<rparr>))"

subsection \<open>Runs of the controller\<close>

text \<open>Everything that can happen to a controller: a call of one of its four public
  operations or the expiry of a timeout. Each is handled to completion before the next. A run
  goes on after an exception, as it does when the caller catches it.\<close>

datatype event = CreateNormalOrder | CreateVIPOrder | AddBot | RemoveBot | TimerFires timer

fun step :: "event \<Rightarrow> world \<Rightarrow> world" where
  "step CreateNormalOrder w = snd (createNormalOrder w)"
| "step CreateVIPOrder w = snd (createVIPOrder w)"
| "step AddBot w = snd (addBot w)"
| "step RemoveBot w = snd (removeBot w)"
| "step (TimerFires t) w = snd (timerFires t w)"

fun run :: "event list \<Rightarrow> world \<Rightarrow> world" where
  "run [] w = w"
| "run (e # es) w = run es (step e w)"

text \<open>The number of orders and of bots that a sequence of events creates.\<close>

definition orders_created :: "event list \<Rightarrow> nat" where
  "orders_created es = length (filter (\<lambda>e. e = CreateNormalOrder \<or> e = CreateVIPOrder) es)"

definition bots_created :: "event list \<Rightarrow> nat" where
  "bots_created es = length (filter (\<lambda>e. e = AddBot) es)"

section \<open>The state changes between logger calls\<close>

text \<open>Each operation changes the state in blocks separated by the calls of the logger, the
  only points where it can be interrupted. The blocks are named here; the lemmas
  \<open>createOrder_created\<close>, \<open>addBot_added\<close>, \<open>bind_bound\<close>, \<open>removeBot_popped\<close>,
  \<open>removeBot_preempted\<close> and \<open>timerFires_finished\<close> show that the code performs them.\<close>

text \<open>\<open>_createOrder\<close> up to the logger call: the new order is allocated, pushed and enqueued.\<close>

definition created :: "order_type \<Rightarrow> world \<Rightarrow> world" where
  "created ty w =
     w\<lparr>ostore := (ostore w)(onew w := Order (nextOrderNumber w) ty),
       onew := onew w + 1,
       nextOrderNumber := nextOrderNumber w + 1,
       allOrders := allOrders w @ [onew w],
       orderQueue := enqueue ((ostore w)(onew w := Order (nextOrderNumber w) ty))
                       (orderQueue w) (onew w)\<rparr>"

text \<open>\<open>addBot\<close> up to the logger call: the new bot is allocated and pushed.\<close>

definition added :: "world \<Rightarrow> world" where
  "added w =
     w\<lparr>bstore := (bstore w)(bnew w := Bot (nextBotId w)),
       bnew := bnew w + 1,
       nextBotId := nextBotId w + 1,
       bots := bots w @ [bnew w]\<rparr>"

text \<open>One round of the assignment loop up to the logger call: the front order \<open>r\<close> is
  dequeued and the idle bot \<open>b\<close> starts processing it.\<close>

definition bound :: "bref \<Rightarrow> oref \<Rightarrow> world \<Rightarrow> world" where
  "bound b r w =
     w\<lparr>orderQueue := snd (dequeue (ostore w) (orderQueue w)),
       bstore := (bstore w)(b := (bstore w b)\<lparr>currentOrder := Some r,
                   bstatus := BOT_PROCESSING, processingTimeout := Some (tnew w)\<rparr>),
       ostore := (ostore w)(r := (ostore w r)\<lparr>ostatus := PROCESSING\<rparr>),
       timers := (timers w)(tnew w \<mapsto> (b, Some (OnOrderCompleted b))),
       tnew := tnew w + 1\<rparr>"

text \<open>\<open>removeBot\<close> of an idle bot up to the logger call: the last bot is popped.\<close>

definition popped :: "world \<Rightarrow> world" where
  "popped w = w\<lparr>bots := butlast (bots w)\<rparr>"

text \<open>\<open>removeBot\<close> of a bot that holds the timer \<open>t\<close> and the order \<open>r\<close>, up to the logger
  call: the bot is popped and stopped, the order returns to \<open>PENDING\<close> and is enqueued.\<close>

definition preempted :: "timer \<Rightarrow> oref \<Rightarrow> world \<Rightarrow> world" where
  "preempted t r w =
     w\<lparr>bots := butlast (bots w),
       timers := (timers w)(t := None),
       bstore := (bstore w)(last (bots w) := (bstore w (last (bots w)))
          \<lparr>processingTimeout := None, currentOrder := None, bstatus := IDLE\<rparr>),
       ostore := (ostore w)(r := (ostore w r)\<lparr>ostatus := PENDING\<rparr>),
       orderQueue := enqueue ((ostore w)(r := (ostore w r)\<lparr>ostatus := PENDING\<rparr>))
          (orderQueue w) r\<rparr>"

text \<open>The expiry of the timer \<open>t\<close> of the bot \<open>b\<close> that holds the order \<open>r\<close>, up to the
  logger call of \<open>_onOrderCompleted\<close>: the timeout is gone, the order is \<open>COMPLETE\<close> and in
  the completed list, the bot is idle.\<close>

definition finished :: "bref \<Rightarrow> timer \<Rightarrow> oref \<Rightarrow> world \<Rightarrow> world" where
  "finished b t r w =
     w\<lparr>timers := (timers w)(t := None),
       ostore := (ostore w)(r := (ostore w r)\<lparr>ostatus := COMPLETE\<rparr>),
       bstore := (bstore w)(b := (bstore w b)
          \<lparr>processingTimeout := None, currentOrder := None, bstatus := IDLE\<rparr>),
       completedOrders := completedOrders w @ [r]\<rparr>"

section \<open>The assignment pass as a list of bindings\<close>

text \<open>Written from the specification's words: the idle bots in pool order, each paired with
  the front order that remains, until the bots or the orders run out.\<close>

definition bindings :: "world \<Rightarrow> (bref \<times> oref) list" where
  "bindings w = zip (filter (\<lambda>b. isIdle (bstore w b)) (bots w)) (getAll (orderQueue w))"

text \<open>The state after a list of bindings, each followed by its logged message; the lemma
  \<open>assign_bind_all\<close> shows that a pass whose logger calls return computes it.\<close>

fun bind_all :: "(bref \<times> oref) list \<Rightarrow> world \<Rightarrow> world" where
  "bind_all [] w = w"
| "bind_all ((b, r) # rest) w =
     bind_all rest
       ((bound b r w)\<lparr>calls := calls w @
          [BotPickedUp (botId (bstore w b)) (otype (ostore w r)) (orderNumber (ostore w r))
             PROCESSING]\<rparr>)"

text \<open>The message the pass logs after binding the bot \<open>b\<close> to the order \<open>r\<close>, and the messages
  of a whole pass in the order of its bindings.\<close>

definition pickup_message :: "world \<Rightarrow> bref \<times> oref \<Rightarrow> message" where
  "pickup_message w =
     (\<lambda>(b, r). BotPickedUp (botId (bstore w b)) (otype (ostore w r)) (orderNumber (ostore w r))
                PROCESSING)"

definition pass_messages :: "world \<Rightarrow> message list" where
  "pass_messages w = map (pickup_message w) (bindings w)"

text \<open>The logger \<open>lg\<close>, called with the messages \<open>ms\<close> one after the other when \<open>h\<close> are the
  messages it was called with before, returns from each of these calls.\<close>

fun logger_returns :: "(message list \<Rightarrow> message \<Rightarrow> bool) \<Rightarrow> message list \<Rightarrow> message list \<Rightarrow> bool" where
  "logger_returns lg h [] \<longleftrightarrow> True"
| "logger_returns lg h (m # ms) \<longleftrightarrow> \<not> lg h m \<and> logger_returns lg (h @ [m]) ms"

section \<open>Invariants of the controller\<close>

text \<open>A bot is consistent when its status, its current order and its timer handle agree.\<close>

definition bot_ok :: "bot \<Rightarrow> bool" where
  "bot_ok x \<longleftrightarrow>
     (bstatus x = IDLE \<longleftrightarrow> currentOrder x = None) \<and>
     (currentOrder x = None \<longleftrightarrow> processingTimeout x = None)"

definition bots_inv :: "world \<Rightarrow> bool" where
  "bots_inv w \<longleftrightarrow>
     distinct (bots w) \<and>
     (\<forall>b \<in> set (bots w). b < bnew w) \<and>
     (\<forall>b. bot_ok (bstore w b))"

text \<open>The pending timeouts are exactly the handles held by the bots, and the bots that hold
  one are in the pool.\<close>

definition timers_inv :: "world \<Rightarrow> bool" where
  "timers_inv w \<longleftrightarrow>
     (\<forall>t b cb. timers w t = Some (b, cb) \<longrightarrow>
        b \<in> set (bots w) \<and> processingTimeout (bstore w b) = Some t \<and>
        cb = Some (OnOrderCompleted b) \<and> t < tnew w) \<and>
     (\<forall>b t. processingTimeout (bstore w b) = Some t \<longrightarrow>
        timers w t = Some (b, Some (OnOrderCompleted b)))"

text \<open>Every order is where its status says: in the queue, with one bot, or in the completed
  list.\<close>

definition orders_inv :: "world \<Rightarrow> bool" where
  "orders_inv w \<longleftrightarrow>
     allOrders w = [0..<onew w] \<and>
     distinct (orders (orderQueue w)) \<and>
     distinct (completedOrders w) \<and>
     (\<forall>r. r \<in> set (orders (orderQueue w)) \<longleftrightarrow> r < onew w \<and> ostatus (ostore w r) = PENDING) \<and>
     (\<forall>r. r \<in> set (completedOrders w) \<longleftrightarrow> r < onew w \<and> ostatus (ostore w r) = COMPLETE) \<and>
     (\<forall>b r. currentOrder (bstore w b) = Some r \<longrightarrow>
          r < onew w \<and> ostatus (ostore w r) = PROCESSING) \<and>
     (\<forall>r. r < onew w \<and> ostatus (ostore w r) = PROCESSING \<longrightarrow>
          (\<exists>b \<in> set (bots w). currentOrder (bstore w b) = Some r)) \<and>
     (\<forall>b b' r. currentOrder (bstore w b) = Some r \<and> currentOrder (bstore w b') = Some r
        \<longrightarrow> b = b')"

definition consistent :: "world \<Rightarrow> bool" where
  "consistent w \<longleftrightarrow> bots_inv w \<and> timers_inv w \<and> orders_inv w"

text \<open>A property of states is kept by the assignment pass when it implies consistency and
  survives every logger call and every binding (\<open>loop_stable_assign\<close>).\<close>

definition loop_stable :: "(world \<Rightarrow> bool) \<Rightarrow> bool" where
  "loop_stable Q \<longleftrightarrow>
     (\<forall>w. Q w \<longrightarrow> consistent w) \<and>
     (\<forall>w c. Q w \<longrightarrow> Q (w\<lparr>calls := c\<rparr>)) \<and>
     (\<forall>w b r q. Q w \<longrightarrow> b \<in> set (bots w) \<longrightarrow> bstatus (bstore w b) = IDLE \<longrightarrow>
        orders (orderQueue w) = r # q \<longrightarrow> Q (bound b r w))"

text \<open>It is stable when it survives the other blocks as well; it then holds along every
  run (\<open>stable_run\<close>).\<close>

definition stable :: "(world \<Rightarrow> bool) \<Rightarrow> bool" where
  "stable Q \<longleftrightarrow>
     loop_stable Q \<and>
     (\<forall>w ty. Q w \<longrightarrow> Q (created ty w)) \<and>
     (\<forall>w. Q w \<longrightarrow> Q (added w)) \<and>
     (\<forall>w. Q w \<longrightarrow> bots w \<noteq> [] \<longrightarrow> processingTimeout (bstore w (last (bots w))) = None \<longrightarrow>
        currentOrder (bstore w (last (bots w))) = None \<longrightarrow> Q (popped w)) \<and>
     (\<forall>w t r. Q w \<longrightarrow> bots w \<noteq> [] \<longrightarrow>
        processingTimeout (bstore w (last (bots w))) = Some t \<longrightarrow>
        currentOrder (bstore w (last (bots w))) = Some r \<longrightarrow> Q (preempted t r w)) \<and>
     (\<forall>w b t r. Q w \<longrightarrow> timers w t = Some (b, Some (OnOrderCompleted b)) \<longrightarrow>
        processingTimeout (bstore w b) = Some t \<longrightarrow> currentOrder (bstore w b) = Some r \<longrightarrow>
        Q (finished b t r w))"

text \<open>The queue of the controller is in priority order and its cached count is right.\<close>

definition queue_inv :: "world \<Rightarrow> bool" where
  "queue_inv w \<longleftrightarrow>
     queue_abs (ostore w) (orderQueue w)
       \<lparr>vipSeq = filter (\<lambda>r. isVIP (ostore w r)) (orders (orderQueue w)),
        normalSeq = filter (\<lambda>r. \<not> isVIP (ostore w r)) (orders (orderQueue w))\<rparr>"

text \<open>Order numbers and bot ids follow the order of creation.\<close>

definition ids_inv :: "world \<Rightarrow> bool" where
  "ids_inv w \<longleftrightarrow>
     allOrders w = [0..<onew w] \<and>
     nextOrderNumber w = STARTING_ORDER_NUMBER + int (onew w) \<and>
     (\<forall>r < onew w. orderNumber (ostore w r) = STARTING_ORDER_NUMBER + int r) \<and>
     nextBotId w = STARTING_BOT_ID + int (bnew w) \<and>
     (\<forall>b < bnew w. botId (bstore w b) = STARTING_BOT_ID + int b) \<and>
     sorted_wrt (<) (bots w)"

text \<open>The logger never throws.\<close>

definition quiet :: "world \<Rightarrow> bool" where
  "quiet w \<longleftrightarrow> (\<forall>h m. \<not> logger w h m)"

text \<open>No bot of the pool is idle while an order is pending.\<close>

definition busy_inv :: "world \<Rightarrow> bool" where
  "busy_inv w \<longleftrightarrow>
     isEmpty (orderQueue w) \<or> (\<forall>b \<in> set (bots w). \<not> isIdle (bstore w b))"

section \<open>Example runs\<close>

text \<open>A logger that never throws, and runs of the controller used as concrete instances.\<close>

definition silent :: "message list \<Rightarrow> message \<Rightarrow> bool" where
  "silent h m = False"

text \<open>One bot, three orders (normal, VIP, normal), and the first timeout has expired: order
  0 is complete, the bot works on the VIP order 1, order 2 waits.\<close>

definition example_run :: world where
  "example_run =
     run [AddBot, CreateNormalOrder, CreateVIPOrder, CreateNormalOrder, TimerFires 0]
       (newController silent)"

text \<open>Orders of both types created between the additions and one removal of bots.\<close>

definition example_ids_run :: world where
  "example_ids_run =
     run [CreateNormalOrder, AddBot, CreateVIPOrder, AddBot, RemoveBot, AddBot,
          CreateNormalOrder]
       (newController silent)"

text \<open>A pool of one idle bot.\<close>

definition example_idle_run :: world where
  "example_idle_run = run [AddBot] (newController silent)"




text \<open>A logger that returns from the call that announces the second bot and throws at every
  other call; \<open>addBot\<close> of the second bot starts its assignment pass in
  \<open>example_loud_pass_state\<close>, again with two idle bots and two queued orders.\<close>

definition picky :: "message list \<Rightarrow> message \<Rightarrow> bool" where
  "picky h m \<longleftrightarrow> m \<noteq> BotCreated 2"



text \<open>Two bots, each given an order; the first bot's timeout has expired, so the first bot
  is idle and the second, the most recently added, is still processing order 1.\<close>

definition example_preempt_run :: world where
  "example_preempt_run =
     run [AddBot, CreateNormalOrder, AddBot, CreateNormalOrder, TimerFires 0]
       (newController silent)"

text \<open>Two bots processing the VIP orders 0 and 1 while the VIP order 2 and the normal
  order 3 wait.\<close>

definition example_queue_run :: world where
  "example_queue_run =
     run [AddBot, AddBot, CreateVIPOrder, CreateVIPOrder, CreateVIPOrder, CreateNormalOrder]
       (newController silent)"

text \<open>A bot that has left the pool for good, seen from a later state: it is not in the
  pool, the timeout \<open>h\<close> it held is not pending and cannot be handed out again, and its
  fields are \<open>x\<close>.\<close>

definition retired :: "bref \<Rightarrow> timer \<Rightarrow> bot \<Rightarrow> world \<Rightarrow> bool" where
  "retired b h x v \<longleftrightarrow>
     consistent v \<and> b \<notin> set (bots v) \<and> b < bnew v \<and> timers v h = None \<and> h < tnew v \<and>
     bstore v b = x"

text \<open>Two bots; the more recently added one processes order 1 and is then removed while
  the other is busy, so order 1 waits in the queue; the cancelled timeout 1 is then made to
  expire, the first bot finishes order 0 and picks up order 1, and timeout 1 expires again.\<close>

definition example_stop_run :: world where
  "example_stop_run =
     run [AddBot, AddBot, CreateNormalOrder, CreateNormalOrder] (newController silent)"

definition example_after_stop :: world where
  "example_after_stop =
     run [TimerFires 1, TimerFires 0, TimerFires 1] (snd (removeBot example_stop_run))"

text \<open>With the logger \<open>picky\<close>: a pool of one idle bot, whose announcement threw; and a pool
  of one bot that processes the VIP order 1 while the normal order 0 waits (the bot was
  bound by the pass that the addition of a second bot started; that pass stopped at the
  throwing logger call, and the second bot was removed again).\<close>

definition example_throw_run :: world where
  "example_throw_run = run [AddBot] (newController picky)"

definition example_busy_throw_run :: world where
  "example_busy_throw_run =
     run [CreateNormalOrder, CreateVIPOrder, AddBot, AddBot, RemoveBot] (newController picky)"

text \<open>One bot processing order 0 while the VIP order 1 and the normal order 2 wait.\<close>

definition example_pending_run :: world where
  "example_pending_run =
     run [AddBot, CreateNormalOrder, CreateVIPOrder, CreateNormalOrder] (newController silent)"

text \<open>A logger that throws at the announcement of the third order only. With it, two bots
  are each given an order, the first bot finishes and becomes idle, and a third order is
  created without an assignment pass: the first bot is idle, the second is processing order
  1, and order 2 waits.\<close>

definition grudging :: "message list \<Rightarrow> message \<Rightarrow> bool" where
  "grudging h m \<longleftrightarrow> m = OrderCreated NORMAL 1003 PENDING"

definition example_idle_first_run :: world where
  "example_idle_first_run =
     run [AddBot, CreateNormalOrder, AddBot, CreateNormalOrder, TimerFires 0, CreateNormalOrder]
       (newController grudging)"

section \<open>The order queue keeps VIP orders first, each class in enqueue order\<close>

lemma splice_insert_at_length:
  "splice_insert (int (length xs)) x (xs @ ys) = xs @ x # ys"
  by (simp add: splice_insert_def)

lemma queue_abs_new: "queue_abs h newOrderQueue two_seq_empty"
  by (simp add: queue_abs_def newOrderQueue_def two_seq_empty_def)

lemma queue_abs_enqueue:
  assumes "queue_abs h q s"
  shows "queue_abs h (enqueue h q r) (two_seq_apply h (Enqueue r) s)"
  using assms by (auto simp: queue_abs_def enqueue_def splice_insert_at_length)

lemma queue_abs_dequeue:
  assumes "queue_abs h q s"
  shows "queue_abs h (snd (dequeue h q)) (two_seq_apply h Dequeue s)"
proof (cases "vipSeq s")
  case Nil
  with assms show ?thesis
    by (cases "normalSeq s") (auto simp: queue_abs_def dequeue_def)
next
  case (Cons v vs)
  with assms show ?thesis
    by (auto simp: queue_abs_def dequeue_def)
qed

lemma queue_abs_clear: "queue_abs h (clear q) (two_seq_apply h Clear s)"
  by (simp add: queue_abs_def clear_def two_seq_empty_def)

lemma queue_abs_apply:
  "queue_abs h q s \<Longrightarrow> queue_abs h (queue_apply h c q) (two_seq_apply h c s)"
proof (cases c)
  case (Enqueue r)
  assume "queue_abs h q s"
  then show ?thesis
    unfolding Enqueue queue_apply.simps by (rule queue_abs_enqueue)
next
  case Dequeue
  assume "queue_abs h q s"
  then show ?thesis
    unfolding Dequeue queue_apply.simps by (rule queue_abs_dequeue)
next
  case Clear
  show ?thesis
    unfolding Clear queue_apply.simps by (rule queue_abs_clear)
qed

lemma queue_abs_run:
  "queue_abs h q s \<Longrightarrow> queue_abs h (queue_run h cs q) (two_seq_run h cs s)"
  by (induction cs arbitrary: q s) (simp_all add: queue_abs_apply)

lemma queue_abs_getAll: "queue_abs h q s \<Longrightarrow> getAll q = vipSeq s @ normalSeq s"
  by (simp add: queue_abs_def getAll_def)

lemma queue_abs_vips: "queue_abs h q s \<Longrightarrow> \<forall>r \<in> set (vipSeq s). isVIP (h r)"
  by (simp add: queue_abs_def)

lemma queue_abs_normals: "queue_abs h q s \<Longrightarrow> \<forall>r \<in> set (normalSeq s). \<not> isVIP (h r)"
  by (simp add: queue_abs_def)

text \<open>Claim C1. After any sequence of \<open>enqueue\<close>, \<open>dequeue\<close> and \<open>clear\<close> calls on a fresh
  queue, \<open>getAll\<close> returns the queued VIP orders in enqueue order followed by the queued
  normal orders in enqueue order (the two sequences of the reference model); a further VIP
  enqueue puts the order right after the last queued VIP order, and a further normal enqueue
  puts it at the end.\<close>

theorem orderQueue_ordering:
  fixes h :: "oref \<Rightarrow> order" and cs :: "queue_call list"
  defines "q \<equiv> queue_run h cs newOrderQueue"
  defines "s \<equiv> two_seq_run h cs two_seq_empty"
  shows "getAll q = vipSeq s @ normalSeq s
       \<and> (\<forall>r \<in> set (vipSeq s). isVIP (h r))
       \<and> (\<forall>r \<in> set (normalSeq s). \<not> isVIP (h r))
       \<and> (\<forall>r. isVIP (h r) \<longrightarrow> getAll (enqueue h q r) = vipSeq s @ r # normalSeq s)
       \<and> (\<forall>r. \<not> isVIP (h r) \<longrightarrow> getAll (enqueue h q r) = getAll q @ [r])"
proof -
  have abs: "queue_abs h q s"
    unfolding q_def s_def by (rule queue_abs_run [OF queue_abs_new])
  have all: "getAll q = vipSeq s @ normalSeq s"
    by (rule queue_abs_getAll [OF abs])
  have vips: "\<forall>r \<in> set (vipSeq s). isVIP (h r)"
    by (rule queue_abs_vips [OF abs])
  have normals: "\<forall>r \<in> set (normalSeq s). \<not> isVIP (h r)"
    by (rule queue_abs_normals [OF abs])
  have enq_vip: "getAll (enqueue h q r) = vipSeq s @ r # normalSeq s" if "isVIP (h r)" for r
    using queue_abs_getAll [OF queue_abs_enqueue [OF abs, of r]] that by simp
  have enq_normal: "getAll (enqueue h q r) = getAll q @ [r]" if "\<not> isVIP (h r)" for r
    using queue_abs_getAll [OF queue_abs_enqueue [OF abs, of r]] that all by simp
  show ?thesis
    using all vips normals enq_vip enq_normal by blast
qed

theorem orderQueue_ordering_witness:
  "isVIP ((\<lambda>r. Order (1001 + int r) (if r = 1 \<or> r = 3 then VIP else NORMAL)) 3)
   \<and> \<not> isVIP ((\<lambda>r. Order (1001 + int r) (if r = 1 \<or> r = 3 then VIP else NORMAL)) 4)
   \<and> getAll (queue_run (\<lambda>r. Order (1001 + int r) (if r = 1 \<or> r = 3 then VIP else NORMAL))
         [Enqueue 0, Enqueue 1, Enqueue 2] newOrderQueue) = [1, 0, 2]
   \<and> getAll (enqueue (\<lambda>r. Order (1001 + int r) (if r = 1 \<or> r = 3 then VIP else NORMAL))
         (queue_run (\<lambda>r. Order (1001 + int r) (if r = 1 \<or> r = 3 then VIP else NORMAL))
            [Enqueue 0, Enqueue 1, Enqueue 2] newOrderQueue) 3) = [1, 3, 0, 2]
   \<and> getAll (enqueue (\<lambda>r. Order (1001 + int r) (if r = 1 \<or> r = 3 then VIP else NORMAL))
         (queue_run (\<lambda>r. Order (1001 + int r) (if r = 1 \<or> r = 3 then VIP else NORMAL))
            [Enqueue 0, Enqueue 1, Enqueue 2] newOrderQueue) 4) = [1, 0, 2, 4]"
  using orderQueue_ordering
    [of "\<lambda>r. Order (1001 + int r) (if r = 1 \<or> r = 3 then VIP else NORMAL)"
        "[Enqueue 0, Enqueue 1, Enqueue 2]"]
  by (simp add: isVIP_def Order_def two_seq_empty_def)

lemma distinct_insert_middle:
  "distinct (take n xs @ x # drop n xs) \<longleftrightarrow> x \<notin> set xs \<and> distinct xs"
proof -
  define ys where "ys = take n xs"
  define zs where "zs = drop n xs"
  have xs: "xs = ys @ zs" by (simp add: ys_def zs_def)
  have "distinct (ys @ x # zs) \<longleftrightarrow> x \<notin> set (ys @ zs) \<and> distinct (ys @ zs)"
    by auto
  then show ?thesis
    unfolding ys_def [symmetric] zs_def [symmetric] by (simp only: xs [symmetric])
qed

lemma set_take_drop: "set (take n xs) \<union> set (drop n xs) = set xs"
  using arg_cong [OF append_take_drop_id [of n xs], of set] by (simp only: set_append)

lemma set_splice_insert [simp]: "set (splice_insert i x xs) = insert x (set xs)"
  using set_take_drop [of _ xs] by (auto simp: splice_insert_def Let_def)

lemma distinct_splice_insert [simp]:
  "distinct (splice_insert i x xs) \<longleftrightarrow> x \<notin> set xs \<and> distinct xs"
  unfolding splice_insert_def Let_def by (rule distinct_insert_middle)

lemma length_splice_insert [simp]: "length (splice_insert i x xs) = Suc (length xs)"
  by (simp add: splice_insert_def Let_def)

lemma consistent_new: "consistent (newController lg)"
  by (simp add: consistent_def bots_inv_def timers_inv_def orders_inv_def newController_def
      bot_ok_def Bot_def Order_def newOrderQueue_def)

lemma consistent_calls [simp]: "consistent (w\<lparr>calls := c\<rparr>) = consistent w"
  by (simp add: consistent_def bots_inv_def timers_inv_def orders_inv_def)

lemma consistent_call_logger: "consistent w \<Longrightarrow> consistent (snd (call_logger m w))"
  by (simp add: call_logger_def)

lemma snd_andThen:
  assumes "P (snd (m w))" and "\<And>a w'. P w' \<Longrightarrow> P (snd (f a w'))"
  shows "P (snd (andThen m f w))"
proof (cases "m w")
  case (Pair res w')
  with assms show ?thesis
    by (cases res) (simp_all add: andThen_def)
qed

lemma startProcessing_idle:
  assumes "bstatus (bstore w b) = IDLE"
  shows "startProcessing b (Some r) cb w =
    (Inr (), w\<lparr>bstore := (bstore w)(b := (bstore w b)
                  \<lparr>currentOrder := Some r, bstatus := BOT_PROCESSING,
                   processingTimeout := Some (tnew w)\<rparr>),
               ostore := (ostore w)(r := (ostore w r)\<lparr>ostatus := PROCESSING\<rparr>),
               timers := (timers w)(tnew w \<mapsto> (b, cb)),
               tnew := tnew w + 1\<rparr>)"
  using assms
  by (simp add: startProcessing_def upd_bot_def upd_order_def setTimeout_def
      order_startProcessing_def Let_def)

lemma idle_no_timeout:
  assumes "bots_inv w" "bstatus (bstore w b) = IDLE"
  shows "processingTimeout (bstore w b) = None \<and> currentOrder (bstore w b) = None"
proof -
  have "bot_ok (bstore w b)" using assms(1) by (simp add: bots_inv_def)
  with assms(2) show ?thesis by (auto simp: bot_ok_def)
qed

lemma timers_invD1:
  assumes "timers_inv w" "timers w t = Some (b, cb)"
  shows "b \<in> set (bots w)" "processingTimeout (bstore w b) = Some t"
    "cb = Some (OnOrderCompleted b)" "t < tnew w"
  using assms unfolding timers_inv_def by blast+

lemma timers_invD2:
  assumes "timers_inv w" "processingTimeout (bstore w b) = Some t"
  shows "timers w t = Some (b, Some (OnOrderCompleted b))"
  using assms unfolding timers_inv_def by blast

lemma timers_invI:
  assumes "\<And>t b cb. timers w t = Some (b, cb) \<Longrightarrow>
        b \<in> set (bots w) \<and> processingTimeout (bstore w b) = Some t \<and>
        cb = Some (OnOrderCompleted b) \<and> t < tnew w"
    and "\<And>b t. processingTimeout (bstore w b) = Some t \<Longrightarrow>
        timers w t = Some (b, Some (OnOrderCompleted b))"
  shows "timers_inv w"
  unfolding timers_inv_def using assms by blast

lemma timers_inv_bind:
  assumes t: "timers_inv w" and b: "b \<in> set (bots w)"
    and none: "processingTimeout (bstore w b) = None"
    and t': "timers w' = (timers w)(tnew w \<mapsto> (b, Some (OnOrderCompleted b)))"
    and b': "bots w' = bots w" and n': "tnew w' = Suc (tnew w)"
    and p': "\<And>c. processingTimeout (bstore w' c) =
                  (if c = b then Some (tnew w) else processingTimeout (bstore w c))"
  shows "timers_inv w'"
proof (rule timers_invI)
  fix x c cb
  assume a: "timers w' x = Some (c, cb)"
  show "c \<in> set (bots w') \<and> processingTimeout (bstore w' c) = Some x \<and>
        cb = Some (OnOrderCompleted c) \<and> x < tnew w'"
  proof (cases "x = tnew w")
    case True
    with a b show ?thesis by (auto simp: t' b' n' p')
  next
    case False
    with a have old: "timers w x = Some (c, cb)" by (simp add: t')
    from timers_invD1 [OF t old] none have "c \<noteq> b" by auto
    with timers_invD1 [OF t old] show ?thesis by (simp add: b' n' p')
  qed
next
  fix c x
  assume a: "processingTimeout (bstore w' c) = Some x"
  show "timers w' x = Some (c, Some (OnOrderCompleted c))"
  proof (cases "c = b")
    case True
    with a show ?thesis by (simp add: t' p')
  next
    case False
    with a have h: "processingTimeout (bstore w c) = Some x" by (simp add: p')
    from timers_invD1 [OF t timers_invD2 [OF t h]] have "x \<noteq> tnew w" by simp
    with timers_invD2 [OF t h] show ?thesis by (simp add: t')
  qed
qed

lemma orders_invD:
  assumes "orders_inv w"
  shows "allOrders w = [0..<onew w]"
    and "distinct (orders (orderQueue w))"
    and "distinct (completedOrders w)"
    and "\<And>r. r \<in> set (orders (orderQueue w)) \<longleftrightarrow> r < onew w \<and> ostatus (ostore w r) = PENDING"
    and "\<And>r. r \<in> set (completedOrders w) \<longleftrightarrow> r < onew w \<and> ostatus (ostore w r) = COMPLETE"
    and "\<And>b r. currentOrder (bstore w b) = Some r \<Longrightarrow> r < onew w \<and> ostatus (ostore w r) = PROCESSING"
    and "\<And>r. r < onew w \<Longrightarrow> ostatus (ostore w r) = PROCESSING \<Longrightarrow>
           \<exists>b \<in> set (bots w). currentOrder (bstore w b) = Some r"
    and "\<And>b b' r. currentOrder (bstore w b) = Some r \<Longrightarrow> currentOrder (bstore w b') = Some r \<Longrightarrow> b = b'"
  using assms unfolding orders_inv_def by blast+

lemma orders_invI:
  assumes "allOrders w = [0..<onew w]"
    and "distinct (orders (orderQueue w))"
    and "distinct (completedOrders w)"
    and "\<And>r. r \<in> set (orders (orderQueue w)) \<longleftrightarrow> r < onew w \<and> ostatus (ostore w r) = PENDING"
    and "\<And>r. r \<in> set (completedOrders w) \<longleftrightarrow> r < onew w \<and> ostatus (ostore w r) = COMPLETE"
    and "\<And>b r. currentOrder (bstore w b) = Some r \<Longrightarrow> r < onew w \<and> ostatus (ostore w r) = PROCESSING"
    and "\<And>r. r < onew w \<Longrightarrow> ostatus (ostore w r) = PROCESSING \<Longrightarrow>
           \<exists>b \<in> set (bots w). currentOrder (bstore w b) = Some r"
    and "\<And>b b' r. currentOrder (bstore w b) = Some r \<Longrightarrow> currentOrder (bstore w b') = Some r \<Longrightarrow> b = b'"
  shows "orders_inv w"
  unfolding orders_inv_def using assms by blast

lemma orders_inv_bind:
  assumes o: "orders_inv w" and b: "b \<in> set (bots w)"
    and none: "currentOrder (bstore w b) = None"
    and q: "orders (orderQueue w) = r # q"
    and q': "orders (orderQueue w') = q"
    and same: "allOrders w' = allOrders w" "onew w' = onew w"
       "completedOrders w' = completedOrders w" "bots w' = bots w"
    and s': "\<And>x. ostatus (ostore w' x) = (if x = r then PROCESSING else ostatus (ostore w x))"
    and c': "\<And>c. currentOrder (bstore w' c) = (if c = b then Some r else currentOrder (bstore w c))"
  shows "orders_inv w'"
proof -
  note D = orders_invD [OF o]
  have r: "r < onew w" "ostatus (ostore w r) = PENDING" "r \<notin> set q" "distinct q"
    using D(2) D(4) [of r] q by auto
  have noholder: "currentOrder (bstore w c) \<noteq> Some r" for c
    using D(6) [of c r] r(2) by auto
  show ?thesis
  proof (rule orders_invI)
    show "allOrders w' = [0..<onew w']" using D(1) by (simp add: same)
    show "distinct (orders (orderQueue w'))" using r by (simp add: q')
    show "distinct (completedOrders w')" using D(3) by (simp add: same)
  next
    fix x
    show "x \<in> set (orders (orderQueue w')) \<longleftrightarrow> x < onew w' \<and> ostatus (ostore w' x) = PENDING"
      using D(4) [of x] r q by (auto simp: q' same s')
    show "x \<in> set (completedOrders w') \<longleftrightarrow> x < onew w' \<and> ostatus (ostore w' x) = COMPLETE"
      using D(5) [of x] r by (auto simp: same s')
  next
    fix c x
    assume "currentOrder (bstore w' c) = Some x"
    then show "x < onew w' \<and> ostatus (ostore w' x) = PROCESSING"
      using D(6) [of c x] r by (auto simp: same s' c' split: if_splits)
  next
    fix x
    assume a: "x < onew w'" "ostatus (ostore w' x) = PROCESSING"
    show "\<exists>c \<in> set (bots w'). currentOrder (bstore w' c) = Some x"
    proof (cases "x = r")
      case True
      with b show ?thesis by (auto simp: same c')
    next
      case False
      with a have "x < onew w" "ostatus (ostore w x) = PROCESSING" by (auto simp: same s')
      from D(7) [OF this] obtain c where c: "c \<in> set (bots w)" "currentOrder (bstore w c) = Some x"
        by blast
      with none have "c \<noteq> b" by auto
      with c show ?thesis by (auto simp: same c')
    qed
  next
    fix c d x
    assume "currentOrder (bstore w' c) = Some x" "currentOrder (bstore w' d) = Some x"
    then show "c = d"
      using D(8) [of c x d] noholder [of c] noholder [of d]
      by (auto simp: c' split: if_splits)
  qed
qed

lemma dequeue_Cons:
  "orders q = r # rest \<Longrightarrow> fst (dequeue h q) = Some r \<and> orders (snd (dequeue h q)) = rest"
  by (simp add: dequeue_def)

lemma andThen_Inr: "m w = (Inr a, w') \<Longrightarrow> andThen m f w = f a w'"
  by (simp add: andThen_def)

lemma andThen_Inl: "m w = (Inl e, w') \<Longrightarrow> andThen m f w = (Inl e, w')"
  by (simp add: andThen_def)

lemma assignLoop_empty: "orders (orderQueue w) = [] \<Longrightarrow> assignLoop bs w = (Inr (), w)"
  by (cases bs) (simp_all add: isEmpty_def)

lemma assignLoop_Cons:
  "orders (orderQueue w) = r # q \<Longrightarrow>
   assignLoop (b # rest) w =
     andThen (startProcessing b (Some r) (Some (OnOrderCompleted b)))
       (\<lambda>_. andThen
          (\<lambda>w'. call_logger
             (BotPickedUp (botId (bstore w' b)) (otype (ostore w' r))
                (orderNumber (ostore w' r)) (ostatus (ostore w' r))) w')
          (\<lambda>_. assignLoop rest))
       (w\<lparr>orderQueue := snd (dequeue (ostore w) (orderQueue w))\<rparr>)"
  by (simp add: isEmpty_def dequeue_def)

lemma assignLoop_Nil: "assignLoop [] w = (Inr (), w)"
  by simp

declare assignLoop.simps [simp del]

lemma consistentD:
  assumes "consistent w"
  shows "bots_inv w" "timers_inv w" "orders_inv w"
  using assms by (simp_all add: consistent_def)

lemma consistent_bind:
  assumes ok: "consistent w" and b: "b \<in> set (bots w)" and idle: "bstatus (bstore w b) = IDLE"
    and q: "orders (orderQueue w) = r # q"
  defines "w' \<equiv> snd (startProcessing b (Some r) (Some (OnOrderCompleted b))
                (w\<lparr>orderQueue := snd (dequeue (ostore w) (orderQueue w))\<rparr>))"
  shows "consistent w'"
proof -
  have i: "bstatus (bstore (w\<lparr>orderQueue := snd (dequeue (ostore w) (orderQueue w))\<rparr>) b) = IDLE"
    using idle by simp
  note inv = consistentD [OF ok]
  note none = idle_no_timeout [OF inv(1) idle]
  have dq: "orders (snd (dequeue (ostore w) (orderQueue w))) = q"
    using dequeue_Cons [OF q] by simp
  have same: "bots w' = bots w" "bnew w' = bnew w" "allOrders w' = allOrders w"
      "onew w' = onew w" "completedOrders w' = completedOrders w"
      "orders (orderQueue w') = q"
    and tm: "timers w' = (timers w)(tnew w \<mapsto> (b, Some (OnOrderCompleted b)))"
      "tnew w' = Suc (tnew w)"
    and bs: "bstore w' = (bstore w)(b := (bstore w b)\<lparr>currentOrder := Some r,
        bstatus := BOT_PROCESSING, processingTimeout := Some (tnew w)\<rparr>)"
    and os: "ostore w' = (ostore w)(r := (ostore w r)\<lparr>ostatus := PROCESSING\<rparr>)"
    unfolding w'_def startProcessing_idle [OF i] by (simp_all add: dq)
  have "bots_inv w'"
    using inv(1) by (simp add: bots_inv_def bot_ok_def same bs)
  moreover have "timers_inv w'"
    by (rule timers_inv_bind [OF inv(2) b conjunct1 [OF none]]) (simp_all add: same tm bs)
  moreover have "orders_inv w'"
    by (rule orders_inv_bind [OF inv(3) b conjunct2 [OF none] q]) (simp_all add: same bs os)
  ultimately show ?thesis by (simp add: consistent_def)
qed

lemma consistent_assignLoop:
  assumes "consistent w" "distinct bs" "set bs \<subseteq> set (bots w)"
    "\<forall>b \<in> set bs. bstatus (bstore w b) = IDLE"
  shows "consistent (snd (assignLoop bs w))"
  using assms
proof (induction bs arbitrary: w)
  case Nil
  then show ?case by (simp add: assignLoop_Nil)
next
  case (Cons b rest)
  show ?case
  proof (cases "orders (orderQueue w)")
    case Nil
    with Cons.prems(1) show ?thesis by (simp add: assignLoop_empty)
  next
    case (Cons r q)
    define w0 where "w0 = w\<lparr>orderQueue := snd (dequeue (ostore w) (orderQueue w))\<rparr>"
    define w1 where "w1 = snd (startProcessing b (Some r) (Some (OnOrderCompleted b)) w0)"
    have b: "b \<in> set (bots w)" "bstatus (bstore w b) = IDLE"
      using Cons.prems by auto
    have i: "bstatus (bstore w0 b) = IDLE" using b by (simp add: w0_def)
    have ok1: "consistent w1"
      unfolding w1_def w0_def by (rule consistent_bind [OF Cons.prems(1) b Cons])
    have sp: "startProcessing b (Some r) (Some (OnOrderCompleted b)) w0 = (Inr (), w1)"
      unfolding w1_def startProcessing_idle [OF i] by simp
    have keep: "bots w1 = bots w" "\<And>c. c \<noteq> b \<Longrightarrow> bstore w1 c = bstore w c"
      unfolding w1_def startProcessing_idle [OF i] by (simp_all add: w0_def)
    define P where "P = (\<lambda>v. consistent v \<and> set rest \<subseteq> set (bots v) \<and>
        (\<forall>c \<in> set rest. bstatus (bstore v c) = IDLE))"
    have rest: "bstore w1 c = bstore w c" if "c \<in> set rest" for c
      using keep(2) [of c] that Cons.prems(2) by auto
    have P1: "P w1"
      using Cons.prems ok1 keep(1) rest by (auto simp: P_def)
    have Plog: "P (snd (call_logger m v))" if "P v" for m v
      using that by (simp add: P_def call_logger_def)
    have Ploop: "consistent (snd (assignLoop rest v))" if "P v" for v
      using that Cons.prems(2) by (intro Cons.IH) (auto simp: P_def)
    have "consistent (snd (andThen
        (\<lambda>w'. call_logger (BotPickedUp (botId (bstore w' b)) (otype (ostore w' r))
                       (orderNumber (ostore w' r)) (ostatus (ostore w' r))) w')
        (\<lambda>_. assignLoop rest) w1))"
    proof (cases "call_logger (BotPickedUp (botId (bstore w1 b)) (otype (ostore w1 r))
                       (orderNumber (ostore w1 r)) (ostatus (ostore w1 r))) w1")
      case (Pair res v)
      have "P v" using Plog [OF P1, of "BotPickedUp (botId (bstore w1 b)) (otype (ostore w1 r))
                       (orderNumber (ostore w1 r)) (ostatus (ostore w1 r))"] Pair by simp
      then show ?thesis
        using Pair Ploop [of v] by (cases res) (simp_all add: andThen_def P_def)
    qed
    moreover have "assignLoop (b # rest) w = andThen
        (\<lambda>w'. call_logger (BotPickedUp (botId (bstore w' b)) (otype (ostore w' r))
                       (orderNumber (ostore w' r)) (ostatus (ostore w' r))) w')
        (\<lambda>_. assignLoop rest) w1"
      unfolding assignLoop_Cons [OF Cons] w0_def [symmetric]
      using sp by (simp add: andThen_def)
    ultimately show ?thesis by simp
  qed
qed

lemma consistent_assign: "consistent w \<Longrightarrow> consistent (snd (assignOrdersToIdleBots w))"
  by (simp add: assignOrdersToIdleBots_def Let_def isIdle_def consistent_assignLoop consistentD(1) [unfolded bots_inv_def])

lemma bots_invD:
  assumes "bots_inv w"
  shows "distinct (bots w)" "\<And>b. b \<in> set (bots w) \<Longrightarrow> b < bnew w" "\<And>b. bot_ok (bstore w b)"
  using assms by (simp_all add: bots_inv_def)

lemma orders_inv_holders:
  assumes o: "orders_inv w"
    and same: "allOrders w' = allOrders w" "onew w' = onew w"
      "orderQueue w' = orderQueue w" "completedOrders w' = completedOrders w"
      "ostore w' = ostore w"
    and sub: "\<And>c r. currentOrder (bstore w' c) = Some r \<Longrightarrow> currentOrder (bstore w c) = Some r"
    and keep: "\<And>c r. c \<in> set (bots w) \<Longrightarrow> currentOrder (bstore w c) = Some r \<Longrightarrow>
        c \<in> set (bots w') \<and> currentOrder (bstore w' c) = Some r"
  shows "orders_inv w'"
proof -
  note D = orders_invD [OF o]
  show ?thesis
  proof (rule orders_invI)
    show "allOrders w' = [0..<onew w']" using D(1) by (simp add: same)
    show "distinct (orders (orderQueue w'))" using D(2) by (simp add: same)
    show "distinct (completedOrders w')" using D(3) by (simp add: same)
  next
    fix x
    show "x \<in> set (orders (orderQueue w')) \<longleftrightarrow> x < onew w' \<and> ostatus (ostore w' x) = PENDING"
      using D(4) [of x] by (simp add: same)
    show "x \<in> set (completedOrders w') \<longleftrightarrow> x < onew w' \<and> ostatus (ostore w' x) = COMPLETE"
      using D(5) [of x] by (simp add: same)
  next
    fix c x
    assume "currentOrder (bstore w' c) = Some x"
    then show "x < onew w' \<and> ostatus (ostore w' x) = PROCESSING"
      using D(6) [of c x] sub [of c x] by (simp add: same)
  next
    fix x
    assume "x < onew w'" "ostatus (ostore w' x) = PROCESSING"
    then obtain c where "c \<in> set (bots w)" "currentOrder (bstore w c) = Some x"
      using D(7) [of x] by (auto simp: same)
    then show "\<exists>c \<in> set (bots w'). currentOrder (bstore w' c) = Some x"
      using keep [of c x] by blast
  next
    fix c d x
    assume "currentOrder (bstore w' c) = Some x" "currentOrder (bstore w' d) = Some x"
    then show "c = d"
      using D(8) [of c x d] sub [of c x] sub [of d x] by simp
  qed
qed

lemma consistent_addBot:
  assumes ok: "consistent w"
  shows "consistent (snd (addBot w))"
proof -
  note inv = consistentD [OF ok]
  note B = bots_invD [OF inv(1)]
  define w2 where "w2 = w\<lparr>bstore := (bstore w)(bnew w := Bot (nextBotId w)),
      bnew := bnew w + 1, nextBotId := nextBotId w + 1, bots := bots w @ [bnew w]\<rparr>"
  have fresh: "bnew w \<notin> set (bots w)" using B(2) [of "bnew w"] by auto
  have "bots_inv w2"
    using B fresh by (auto simp: bots_inv_def w2_def bot_ok_def Bot_def less_Suc_eq)
  moreover have "timers_inv w2"
  proof (rule timers_invI)
    fix t b cb
    assume "timers w2 t = Some (b, cb)"
    then have old: "timers w t = Some (b, cb)" by (simp add: w2_def)
    from timers_invD1 [OF inv(2) old] fresh
    show "b \<in> set (bots w2) \<and> processingTimeout (bstore w2 b) = Some t \<and>
        cb = Some (OnOrderCompleted b) \<and> t < tnew w2"
      by (auto simp: w2_def)
  next
    fix b t
    assume "processingTimeout (bstore w2 b) = Some t"
    then have "processingTimeout (bstore w b) = Some t"
      by (auto simp: w2_def Bot_def split: if_splits)
    from timers_invD2 [OF inv(2) this]
    show "timers w2 t = Some (b, Some (OnOrderCompleted b))" by (simp add: w2_def)
  qed
  moreover have "orders_inv w2"
  proof (rule orders_inv_holders [OF inv(3)])
    fix c r
    assume "currentOrder (bstore w2 c) = Some r"
    then show "currentOrder (bstore w c) = Some r"
      by (auto simp: w2_def Bot_def split: if_splits)
  next
    fix c r
    assume "c \<in> set (bots w)" "currentOrder (bstore w c) = Some r"
    then show "c \<in> set (bots w2) \<and> currentOrder (bstore w2 c) = Some r"
      using fresh by (auto simp: w2_def)
  qed (simp_all add: w2_def)
  ultimately have ok2: "consistent w2" by (simp add: consistent_def)
  have "addBot w =
      andThen (call_logger (BotCreated (botId (bstore w2 (bnew w)))))
        (\<lambda>_. andThen assignOrdersToIdleBots (\<lambda>_ w'. (Inr (bnew w), w'))) w2"
    by (simp add: addBot_def Let_def w2_def)
  moreover have "consistent (snd (andThen (call_logger m)
        (\<lambda>_. andThen assignOrdersToIdleBots (\<lambda>_ w'. (Inr (bnew w), w'))) w2))" for m
  proof (rule snd_andThen [where P = consistent])
    show "consistent (snd (call_logger m w2))" by (rule consistent_call_logger [OF ok2])
  next
    fix a :: unit and v
    assume v: "consistent v"
    show "consistent (snd (andThen assignOrdersToIdleBots (\<lambda>_ w'. (Inr (bnew w), w')) v))"
      by (rule snd_andThen [where P = consistent]) (simp_all add: consistent_assign v)
  qed
  ultimately show ?thesis by simp
qed

lemma set_enqueue [simp]: "set (orders (enqueue h q r)) = insert r (set (orders q))"
  by (simp add: enqueue_def)

lemma distinct_enqueue [simp]:
  "distinct (orders (enqueue h q r)) \<longleftrightarrow> r \<notin> set (orders q) \<and> distinct (orders q)"
  by (auto simp: enqueue_def)

lemma length_enqueue [simp]: "length (orders (enqueue h q r)) = Suc (length (orders q))"
  by (simp add: enqueue_def)

lemma bots_inv_cong:
  "bots w' = bots w \<Longrightarrow> bnew w' = bnew w \<Longrightarrow> bstore w' = bstore w \<Longrightarrow>
     bots_inv w' = bots_inv w"
  by (simp add: bots_inv_def)

lemma timers_inv_cong:
  "timers w' = timers w \<Longrightarrow> bots w' = bots w \<Longrightarrow> bstore w' = bstore w \<Longrightarrow>
     tnew w' = tnew w \<Longrightarrow> timers_inv w' = timers_inv w"
  by (simp add: timers_inv_def)

lemma orders_inv_cong:
  "allOrders w' = allOrders w \<Longrightarrow> onew w' = onew w \<Longrightarrow> orderQueue w' = orderQueue w \<Longrightarrow>
   completedOrders w' = completedOrders w \<Longrightarrow> ostore w' = ostore w \<Longrightarrow>
   bstore w' = bstore w \<Longrightarrow> bots w' = bots w \<Longrightarrow> orders_inv w' = orders_inv w"
  by (simp add: orders_inv_def)

lemma orders_inv_create:
  assumes o: "orders_inv w"
    and a': "allOrders w' = allOrders w @ [onew w]" "onew w' = Suc (onew w)"
    and q': "orders (orderQueue w') = orders (enqueue h (orderQueue w) (onew w))"
    and same: "completedOrders w' = completedOrders w" "bots w' = bots w"
      "bstore w' = bstore w"
    and s': "\<And>x. ostatus (ostore w' x) = (if x = onew w then PENDING else ostatus (ostore w x))"
  shows "orders_inv w'"
proof -
  note D = orders_invD [OF o]
  show ?thesis
  proof (rule orders_invI)
    show "allOrders w' = [0..<onew w']" using D(1) by (simp add: a')
    show "distinct (orders (orderQueue w'))" using D(2) D(4) [of "onew w"] by (simp add: q')
    show "distinct (completedOrders w')" using D(3) by (simp add: same)
  next
    fix x
    show "x \<in> set (orders (orderQueue w')) \<longleftrightarrow> x < onew w' \<and> ostatus (ostore w' x) = PENDING"
      using D(4) [of x] by (auto simp: q' a' s' less_Suc_eq)
    show "x \<in> set (completedOrders w') \<longleftrightarrow> x < onew w' \<and> ostatus (ostore w' x) = COMPLETE"
      using D(5) [of x] by (auto simp: same a' s' less_Suc_eq)
  next
    fix c x
    assume "currentOrder (bstore w' c) = Some x"
    then show "x < onew w' \<and> ostatus (ostore w' x) = PROCESSING"
      using D(6) [of c x] by (auto simp: same a' s')
  next
    fix x
    assume "x < onew w'" "ostatus (ostore w' x) = PROCESSING"
    then show "\<exists>c \<in> set (bots w'). currentOrder (bstore w' c) = Some x"
      using D(7) [of x] by (auto simp: same a' s' less_Suc_eq split: if_splits)
  next
    fix c d x
    assume "currentOrder (bstore w' c) = Some x" "currentOrder (bstore w' d) = Some x"
    then show "c = d"
      using D(8) [of c x d] by (simp add: same)
  qed
qed

lemma consistent_createOrder:
  assumes ok: "consistent w"
  shows "consistent (snd (createOrder ty w))"
proof -
  note inv = consistentD [OF ok]
  define w3 where "w3 = w\<lparr>ostore := (ostore w)(onew w := Order (nextOrderNumber w) ty),
      onew := onew w + 1, nextOrderNumber := nextOrderNumber w + 1,
      allOrders := allOrders w @ [onew w],
      orderQueue := enqueue ((ostore w)(onew w := Order (nextOrderNumber w) ty))
         (orderQueue w) (onew w)\<rparr>"
  have "bots_inv w3" using inv(1) bots_inv_cong [of w3 w] by (simp add: w3_def)
  moreover have "timers_inv w3" using inv(2) timers_inv_cong [of w3 w] by (simp add: w3_def)
  moreover have "orders_inv w3"
    by (rule orders_inv_create [OF inv(3), where h = "(ostore w)(onew w := Order (nextOrderNumber w) ty)"])
       (simp_all add: w3_def Order_def)
  ultimately have ok3: "consistent w3" by (simp add: consistent_def)
  have "createOrder ty w =
      andThen (call_logger (OrderCreated ty (orderNumber (ostore w3 (onew w)))
                 (ostatus (ostore w3 (onew w)))))
        (\<lambda>_. andThen assignOrdersToIdleBots (\<lambda>_ w'. (Inr (onew w), w'))) w3"
    by (simp add: createOrder_def Let_def w3_def)
  moreover have "consistent (snd (andThen (call_logger m)
        (\<lambda>_. andThen assignOrdersToIdleBots (\<lambda>_ w'. (Inr (onew w), w'))) w3))" for m
  proof (rule snd_andThen [where P = consistent])
    show "consistent (snd (call_logger m w3))" by (rule consistent_call_logger [OF ok3])
  next
    fix a :: unit and v
    assume v: "consistent v"
    show "consistent (snd (andThen assignOrdersToIdleBots (\<lambda>_ w'. (Inr (onew w), w')) v))"
      by (rule snd_andThen [where P = consistent]) (simp_all add: consistent_assign v)
  qed
  ultimately show ?thesis by simp
qed

lemma bot_okD:
  assumes "bot_ok x"
  shows "bstatus x = IDLE \<longleftrightarrow> currentOrder x = None"
    and "currentOrder x = None \<longleftrightarrow> processingTimeout x = None"
  using assms by (simp_all add: bot_ok_def)

lemma timers_inv_drop:
  assumes t: "timers_inv w"
    and t': "\<And>x. timers w' x =
              (if processingTimeout (bstore w b) = Some x then None else timers w x)"
    and p': "\<And>c. processingTimeout (bstore w' c) =
              (if c = b then None else processingTimeout (bstore w c))"
    and b': "\<And>c. c \<in> set (bots w) \<Longrightarrow> c \<noteq> b \<Longrightarrow> c \<in> set (bots w')"
    and n': "tnew w' = tnew w"
  shows "timers_inv w'"
proof (rule timers_invI)
  fix x c cb
  assume "timers w' x = Some (c, cb)"
  then have old: "timers w x = Some (c, cb)" and x: "processingTimeout (bstore w b) \<noteq> Some x"
    by (auto simp: t' split: if_splits)
  note D = timers_invD1 [OF t old]
  from D(2) x have "c \<noteq> b" by auto
  with D b' [of c] show "c \<in> set (bots w') \<and> processingTimeout (bstore w' c) = Some x \<and>
        cb = Some (OnOrderCompleted c) \<and> x < tnew w'"
    by (simp add: p' n')
next
  fix c x
  assume "processingTimeout (bstore w' c) = Some x"
  then have c: "c \<noteq> b" and h: "processingTimeout (bstore w c) = Some x"
    by (auto simp: p' split: if_splits)
  note old = timers_invD2 [OF t h]
  have "processingTimeout (bstore w b) \<noteq> Some x"
  proof
    assume "processingTimeout (bstore w b) = Some x"
    from timers_invD2 [OF t this] old c show False by simp
  qed
  with old show "timers w' x = Some (c, Some (OnOrderCompleted c))" by (simp add: t')
qed

lemma orders_inv_requeue:
  assumes o: "orders_inv w" and hold: "currentOrder (bstore w b) = Some r"
    and same: "allOrders w' = allOrders w" "onew w' = onew w"
      "completedOrders w' = completedOrders w"
    and q': "orders (orderQueue w') = orders (enqueue h (orderQueue w) r)"
    and b': "\<And>c. c \<in> set (bots w) \<Longrightarrow> c \<noteq> b \<Longrightarrow> c \<in> set (bots w')"
    and s': "\<And>x. ostatus (ostore w' x) = (if x = r then PENDING else ostatus (ostore w x))"
    and c': "\<And>c. currentOrder (bstore w' c) = (if c = b then None else currentOrder (bstore w c))"
  shows "orders_inv w'"
proof -
  note D = orders_invD [OF o]
  have r: "r < onew w" "ostatus (ostore w r) = PROCESSING"
    using D(6) [OF hold] by simp_all
  have rq: "r \<notin> set (orders (orderQueue w))" "r \<notin> set (completedOrders w)"
    using D(4) [of r] D(5) [of r] r by simp_all
  show ?thesis
  proof (rule orders_invI)
    show "allOrders w' = [0..<onew w']" using D(1) by (simp add: same)
    show "distinct (orders (orderQueue w'))" using D(2) rq by (simp add: q')
    show "distinct (completedOrders w')" using D(3) by (simp add: same)
  next
    fix x
    show "x \<in> set (orders (orderQueue w')) \<longleftrightarrow> x < onew w' \<and> ostatus (ostore w' x) = PENDING"
      using D(4) [of x] r by (auto simp: q' same s')
    show "x \<in> set (completedOrders w') \<longleftrightarrow> x < onew w' \<and> ostatus (ostore w' x) = COMPLETE"
      using D(5) [of x] rq by (auto simp: same s')
  next
    fix c x
    assume a: "currentOrder (bstore w' c) = Some x"
    then have c: "c \<noteq> b" and old: "currentOrder (bstore w c) = Some x"
      by (auto simp: c' split: if_splits)
    have "x \<noteq> r" using D(8) [of c r b] old hold c by auto
    with D(6) [OF old] show "x < onew w' \<and> ostatus (ostore w' x) = PROCESSING"
      by (simp add: same s')
  next
    fix x
    assume a: "x < onew w'" "ostatus (ostore w' x) = PROCESSING"
    then have x: "x \<noteq> r" "x < onew w" "ostatus (ostore w x) = PROCESSING"
      by (auto simp: same s' split: if_splits)
    from D(7) [OF x(2,3)] obtain c where c: "c \<in> set (bots w)" "currentOrder (bstore w c) = Some x"
      by blast
    with hold x(1) have "c \<noteq> b" by auto
    with c b' [of c] show "\<exists>c \<in> set (bots w'). currentOrder (bstore w' c) = Some x"
      by (auto simp: c')
  next
    fix c d x
    assume "currentOrder (bstore w' c) = Some x" "currentOrder (bstore w' d) = Some x"
    then show "c = d"
      using D(8) [of c x d] by (auto simp: c' split: if_splits)
  qed
qed

lemma stopProcessing_idle:
  "processingTimeout (bstore w b) = None \<Longrightarrow> currentOrder (bstore w b) = None \<Longrightarrow>
     stopProcessing b w = (None, w)"
  by (simp add: stopProcessing_def)

lemma stopProcessing_busy:
  "processingTimeout (bstore w b) = Some t \<Longrightarrow> currentOrder (bstore w b) = Some r \<Longrightarrow>
     stopProcessing b w =
       (Some r, w\<lparr>timers := (timers w)(t := None),
                  bstore := (bstore w)(b := (bstore w b)\<lparr>processingTimeout := None,
                     currentOrder := None, bstatus := IDLE\<rparr>),
                  ostore := (ostore w)(r := (ostore w r)\<lparr>ostatus := PENDING\<rparr>)\<rparr>)"
  by (simp add: stopProcessing_def upd_bot_def upd_order_def clearTimeout_def
      returnToPending_def Let_def)

lemma last_butlast_set:
  assumes "xs \<noteq> []" "c \<in> set xs" "c \<noteq> last xs"
  shows "c \<in> set (butlast xs)"
proof -
  have "xs = butlast xs @ [last xs]" using assms(1) by simp
  then have "set xs = insert (last xs) (set (butlast xs))"
    by (metis Un_insert_right append_Nil2 list.simps(15) set_append)
  with assms show ?thesis by auto
qed

lemma bots_inv_shrink:
  assumes "bots_inv w" "bots w \<noteq> []" "bots w' = butlast (bots w)" "bnew w' = bnew w"
    "\<And>c. bot_ok (bstore w' c)"
  shows "bots_inv w'"
  using assms by (auto simp: bots_inv_def distinct_butlast dest: in_set_butlastD)

lemma removeBot_empty: "bots w = [] \<Longrightarrow> removeBot w = (Inr None, w)"
  by (simp add: removeBot_def)

lemma removeBot_idle:
  assumes "bots w \<noteq> []"
    and "processingTimeout (bstore w (last (bots w))) = None"
    and "currentOrder (bstore w (last (bots w))) = None"
  shows "removeBot w =
     andThen (call_logger (BotDestroyedIdle (botId (bstore w (last (bots w))))))
       (\<lambda>_. andThen (\<lambda>w'. (Inr (), w')) (\<lambda>_ w'. (Inr (Some (last (bots w))), w')))
       (w\<lparr>bots := butlast (bots w)\<rparr>)"
  using assms by (simp add: removeBot_def Let_def stopProcessing_idle)

lemma removeBot_busy:
  assumes "bots w \<noteq> []"
    and "processingTimeout (bstore w (last (bots w))) = Some t"
    and "currentOrder (bstore w (last (bots w))) = Some r"
  shows "removeBot w =
     andThen (call_logger (BotDestroyedProcessing (botId (bstore w (last (bots w))))
                 (orderNumber (ostore w r))))
       (\<lambda>_. andThen assignOrdersToIdleBots (\<lambda>_ w'. (Inr (Some (last (bots w))), w')))
       (w\<lparr>bots := butlast (bots w),
          timers := (timers w)(t := None),
          bstore := (bstore w)(last (bots w) := (bstore w (last (bots w)))
             \<lparr>processingTimeout := None, currentOrder := None, bstatus := IDLE\<rparr>),
          ostore := (ostore w)(r := (ostore w r)\<lparr>ostatus := PENDING\<rparr>),
          orderQueue := enqueue ((ostore w)(r := (ostore w r)\<lparr>ostatus := PENDING\<rparr>))
             (orderQueue w) r\<rparr>)"
  using assms
  by (simp add: removeBot_def Let_def stopProcessing_busy andThen_def
      split: prod.splits sum.splits)

lemma consistent_removeBot:
  assumes ok: "consistent w"
  shows "consistent (snd (removeBot w))"
proof (cases "bots w = []")
  case True
  with ok show ?thesis by (simp add: removeBot_empty)
next
  case False
  note inv = consistentD [OF ok]
  note B = bots_invD [OF inv(1)]
  define b where "b = last (bots w)"
  note okb = bot_okD [OF B(3) [of b]]
  have others: "c \<in> set (butlast (bots w))" if "c \<in> set (bots w)" "c \<noteq> b" for c
    using last_butlast_set [OF False that(1)] that(2) by (simp add: b_def)
  have tail: "consistent (snd (andThen (call_logger m) (\<lambda>_. andThen f (\<lambda>_ w'. (Inr (Some b), w'))) v))"
    if "consistent v" "\<And>u. consistent u \<Longrightarrow> consistent (snd (f u))"
    for m v and f :: "world \<Rightarrow> (error + unit) \<times> world"
  proof (rule snd_andThen [where P = consistent])
    show "consistent (snd (call_logger m v))" by (rule consistent_call_logger [OF that(1)])
  next
    fix a :: unit and u
    assume u: "consistent u"
    show "consistent (snd (andThen f (\<lambda>_ w'. (Inr (Some b), w')) u))"
      by (rule snd_andThen [where P = consistent]) (simp_all add: that(2) u)
  qed
  show ?thesis
  proof (cases "processingTimeout (bstore w b)")
    case None
    with okb have cur: "currentOrder (bstore w b) = None" by simp
    define w1 where "w1 = w\<lparr>bots := butlast (bots w)\<rparr>"
    have "bots_inv w1"
      by (rule bots_inv_shrink [OF inv(1) False]) (simp_all add: w1_def B(3))
    moreover have "timers_inv w1"
      by (rule timers_inv_drop [OF inv(2), where b = b]) (auto simp: w1_def None others)
    moreover have "orders_inv w1"
    proof (rule orders_inv_holders [OF inv(3)])
      fix c r
      assume c: "c \<in> set (bots w)" "currentOrder (bstore w c) = Some r"
      with cur have "c \<noteq> b" by auto
      with c others [of c] show "c \<in> set (bots w1) \<and> currentOrder (bstore w1 c) = Some r"
        by (simp add: w1_def)
    qed (simp_all add: w1_def)
    ultimately have "consistent w1" by (simp add: consistent_def)
    then show ?thesis
      unfolding removeBot_idle [OF False None [unfolded b_def] cur [unfolded b_def]]
        b_def [symmetric] w1_def [symmetric]
      by (rule tail) simp
  next
    case (Some t)
    with okb obtain r where cur: "currentOrder (bstore w b) = Some r" by auto
    define w3 where "w3 = w\<lparr>bots := butlast (bots w),
          timers := (timers w)(t := None),
          bstore := (bstore w)(b := (bstore w b)
             \<lparr>processingTimeout := None, currentOrder := None, bstatus := IDLE\<rparr>),
          ostore := (ostore w)(r := (ostore w r)\<lparr>ostatus := PENDING\<rparr>),
          orderQueue := enqueue ((ostore w)(r := (ostore w r)\<lparr>ostatus := PENDING\<rparr>))
             (orderQueue w) r\<rparr>"
    have "bot_ok (bstore w3 c)" for c
      using B(3) [of c] by (auto simp: w3_def bot_ok_def)
    then have "bots_inv w3"
      by (intro bots_inv_shrink [OF inv(1) False]) (simp_all add: w3_def)
    moreover have "timers_inv w3"
      by (rule timers_inv_drop [OF inv(2), where b = b]) (auto simp: w3_def Some others)
    moreover have "orders_inv w3"
      by (rule orders_inv_requeue [OF inv(3) cur,
            where h = "(ostore w)(r := (ostore w r)\<lparr>ostatus := PENDING\<rparr>)"])
         (auto simp: w3_def others)
    ultimately have "consistent w3" by (simp add: consistent_def)
    then show ?thesis
      unfolding removeBot_busy [OF False Some [unfolded b_def] cur [unfolded b_def]]
        b_def [symmetric] w3_def [symmetric]
      by (rule tail) (rule consistent_assign)
  qed
qed

lemma orders_inv_complete:
  assumes o: "orders_inv w" and hold: "currentOrder (bstore w b) = Some r"
    and same: "allOrders w' = allOrders w" "onew w' = onew w"
      "orderQueue w' = orderQueue w" "bots w' = bots w"
    and d': "completedOrders w' = completedOrders w @ [r]"
    and s': "\<And>x. ostatus (ostore w' x) = (if x = r then COMPLETE else ostatus (ostore w x))"
    and c': "\<And>c. currentOrder (bstore w' c) = (if c = b then None else currentOrder (bstore w c))"
  shows "orders_inv w'"
proof -
  note D = orders_invD [OF o]
  have r: "r < onew w" "ostatus (ostore w r) = PROCESSING"
    using D(6) [OF hold] by simp_all
  have rq: "r \<notin> set (orders (orderQueue w))" "r \<notin> set (completedOrders w)"
    using D(4) [of r] D(5) [of r] r by simp_all
  show ?thesis
  proof (rule orders_invI)
    show "allOrders w' = [0..<onew w']" using D(1) by (simp add: same)
    show "distinct (orders (orderQueue w'))" using D(2) by (simp add: same)
    show "distinct (completedOrders w')" using D(3) rq by (simp add: d')
  next
    fix x
    show "x \<in> set (orders (orderQueue w')) \<longleftrightarrow> x < onew w' \<and> ostatus (ostore w' x) = PENDING"
      using D(4) [of x] rq by (auto simp: same s')
    show "x \<in> set (completedOrders w') \<longleftrightarrow> x < onew w' \<and> ostatus (ostore w' x) = COMPLETE"
      using D(5) [of x] r by (auto simp: same d' s')
  next
    fix c x
    assume a: "currentOrder (bstore w' c) = Some x"
    then have c: "c \<noteq> b" and old: "currentOrder (bstore w c) = Some x"
      by (auto simp: c' split: if_splits)
    have "x \<noteq> r" using D(8) [of c r b] old hold c by auto
    with D(6) [OF old] show "x < onew w' \<and> ostatus (ostore w' x) = PROCESSING"
      by (simp add: same s')
  next
    fix x
    assume a: "x < onew w'" "ostatus (ostore w' x) = PROCESSING"
    then have x: "x \<noteq> r" "x < onew w" "ostatus (ostore w x) = PROCESSING"
      by (auto simp: same s' split: if_splits)
    from D(7) [OF x(2,3)] obtain c where c: "c \<in> set (bots w)" "currentOrder (bstore w c) = Some x"
      by blast
    with hold x(1) have "c \<noteq> b" by auto
    with c show "\<exists>c \<in> set (bots w'). currentOrder (bstore w' c) = Some x"
      by (auto simp: c' same)
  next
    fix c d x
    assume "currentOrder (bstore w' c) = Some x" "currentOrder (bstore w' d) = Some x"
    then show "c = d"
      using D(8) [of c x d] by (auto simp: c' split: if_splits)
  qed
qed

lemma timerFires_idle: "timers w t = None \<Longrightarrow> timerFires t w = (Inr (), w)"
  by (simp add: timerFires_def)

lemma timerFires_busy:
  assumes "timers w t = Some (b, Some (OnOrderCompleted b))"
    and "processingTimeout (bstore w b) = Some t"
    and "currentOrder (bstore w b) = Some r"
  shows "timerFires t w =
     onOrderCompleted b r
       (w\<lparr>timers := (timers w)(t := None),
          ostore := (ostore w)(r := (ostore w r)\<lparr>ostatus := COMPLETE\<rparr>),
          bstore := (bstore w)(b := (bstore w b)
             \<lparr>processingTimeout := None, currentOrder := None, bstatus := IDLE\<rparr>)\<rparr>)"
  using assms
  by (simp add: timerFires_def completeOrder_def upd_bot_def upd_order_def clearTimeout_def
      complete_def Let_def)

lemma consistent_onOrderCompleted:
  assumes "consistent (w\<lparr>completedOrders := completedOrders w @ [r]\<rparr>)"
  shows "consistent (snd (onOrderCompleted b r w))"
  unfolding onOrderCompleted_def Let_def
proof (rule snd_andThen [where P = consistent])
  show "consistent (snd (call_logger m (w\<lparr>completedOrders := completedOrders w @ [r]\<rparr>)))" for m
    by (rule consistent_call_logger [OF assms])
next
  fix a :: unit and u
  assume u: "consistent u"
  show "consistent (snd (andThen assignOrdersToIdleBots
          (\<lambda>_ w'. if isEmpty (orderQueue w') \<and> isIdle (bstore w' b)
                   then call_logger (BotNowIdle (botId (bstore w' b))) w' else (Inr (), w')) u))"
  proof (rule snd_andThen [where P = consistent])
    show "consistent (snd (assignOrdersToIdleBots u))" by (rule consistent_assign [OF u])
  next
    fix a :: unit and v
    assume "consistent v"
    then show "consistent (snd (if isEmpty (orderQueue v) \<and> isIdle (bstore v b)
                   then call_logger (BotNowIdle (botId (bstore v b))) v else (Inr (), v)))"
      by (simp add: consistent_call_logger)
  qed
qed

lemma consistent_timerFires:
  assumes ok: "consistent w"
  shows "consistent (snd (timerFires t w))"
proof (cases "timers w t")
  case None
  with ok show ?thesis by (simp add: timerFires_idle)
next
  case (Some p)
  obtain b cb where p: "p = (b, cb)" by (cases p)
  note inv = consistentD [OF ok]
  note B = bots_invD [OF inv(1)]
  note T = timers_invD1 [OF inv(2) Some [unfolded p]]
  from bot_okD [OF B(3) [of b]] T(2) obtain r where cur: "currentOrder (bstore w b) = Some r"
    by auto
  define w4 where "w4 = w\<lparr>timers := (timers w)(t := None),
          ostore := (ostore w)(r := (ostore w r)\<lparr>ostatus := COMPLETE\<rparr>),
          bstore := (bstore w)(b := (bstore w b)
             \<lparr>processingTimeout := None, currentOrder := None, bstatus := IDLE\<rparr>),
          completedOrders := completedOrders w @ [r]\<rparr>"
  have "bots_inv w4"
    using B by (simp add: bots_inv_def w4_def bot_ok_def)
  moreover have "timers_inv w4"
    by (rule timers_inv_drop [OF inv(2), where b = b]) (auto simp: w4_def T(2))
  moreover have "orders_inv w4"
    by (rule orders_inv_complete [OF inv(3) cur]) (auto simp: w4_def)
  ultimately have "consistent w4" by (simp add: consistent_def)
  then show ?thesis
    unfolding timerFires_busy [OF Some [unfolded p T(3)] T(2) cur]
    by (intro consistent_onOrderCompleted) (simp add: w4_def)
qed

lemma consistent_step: "consistent w \<Longrightarrow> consistent (step e w)"
  by (cases e)
     (simp_all add: createNormalOrder_def createVIPOrder_def consistent_createOrder
        consistent_addBot consistent_removeBot consistent_timerFires)

lemma consistent_run: "consistent w \<Longrightarrow> consistent (run es w)"
  by (induction es arbitrary: w) (simp_all add: consistent_step)

lemma consistent_reachable: "consistent (run es (newController lg))"
  by (rule consistent_run [OF consistent_new])

lemma holder_in_pool:
  assumes "consistent w" "currentOrder (bstore w b) = Some r"
  shows "b \<in> set (bots w)"
proof -
  note inv = consistentD [OF assms(1)]
  from bot_okD [OF bots_invD(3) [OF inv(1), of b]] assms(2)
  obtain t where "processingTimeout (bstore w b) = Some t" by auto
  from timers_invD1(1) [OF inv(2) timers_invD2 [OF inv(2) this]] show ?thesis .
qed

text \<open>Claim C4. In every state the controller reaches, whatever the events and the logger:
  an order of the controller is \<open>PENDING\<close> exactly when it is in the pending queue,
  \<open>PROCESSING\<close> exactly when it is the current order of a bot of the pool, and \<open>COMPLETE\<close>
  exactly when it is in the completed list; it occurs there once (the queue and the completed
  list have no duplicates, two bots never hold the same order); and a bot of the pool is
  \<open>PROCESSING\<close> exactly when its current order is set, exactly when its timer handle is
  set.\<close>

theorem status_matches_location:
  fixes lg :: "message list \<Rightarrow> message \<Rightarrow> bool" and es :: "event list"
  defines "w \<equiv> run es (newController lg)"
  shows "(\<forall>r \<in> set (allOrders w).
            (ostatus (ostore w r) = PENDING \<longleftrightarrow> r \<in> set (getPendingOrders w)) \<and>
            (ostatus (ostore w r) = PROCESSING \<longleftrightarrow>
               (\<exists>b \<in> set (getBots w). currentOrder (bstore w b) = Some r)) \<and>
            (ostatus (ostore w r) = COMPLETE \<longleftrightarrow> r \<in> set (getCompletedOrders w)))
       \<and> distinct (getPendingOrders w) \<and> distinct (getCompletedOrders w)
       \<and> (\<forall>b \<in> set (getBots w). \<forall>b' \<in> set (getBots w). \<forall>r.
             currentOrder (bstore w b) = Some r \<and> currentOrder (bstore w b') = Some r
               \<longrightarrow> b = b')
       \<and> (\<forall>b \<in> set (getBots w).
            (bstatus (bstore w b) = BOT_PROCESSING \<longleftrightarrow> currentOrder (bstore w b) \<noteq> None) \<and>
            (currentOrder (bstore w b) \<noteq> None \<longleftrightarrow> processingTimeout (bstore w b) \<noteq> None))"
proof -
  have ok: "consistent w" unfolding w_def by (rule consistent_reachable)
  note inv = consistentD [OF ok]
  note D = orders_invD [OF inv(3)]
  have all: "r \<in> set (allOrders w) \<longleftrightarrow> r < onew w" for r
    by (simp add: D(1))
  have 1: "ostatus (ostore w r) = PENDING \<longleftrightarrow> r \<in> set (getPendingOrders w)"
    if "r \<in> set (allOrders w)" for r
    using that D(4) [of r] by (simp add: all getPendingOrders_def getAll_def)
  have 2: "ostatus (ostore w r) = PROCESSING \<longleftrightarrow>
               (\<exists>b \<in> set (getBots w). currentOrder (bstore w b) = Some r)"
    if "r \<in> set (allOrders w)" for r
    using that D(6) [of _ r] D(7) [of r] by (auto simp: all getBots_def)
  have 3: "ostatus (ostore w r) = COMPLETE \<longleftrightarrow> r \<in> set (getCompletedOrders w)"
    if "r \<in> set (allOrders w)" for r
    using that D(5) [of r] by (simp add: all getCompletedOrders_def)
  have 4: "distinct (getPendingOrders w)" "distinct (getCompletedOrders w)"
    using D(2,3) by (simp_all add: getPendingOrders_def getAll_def getCompletedOrders_def)
  have 5: "b = b'" if "currentOrder (bstore w b) = Some r" "currentOrder (bstore w b') = Some r"
    for b b' r
    using D(8) that by blast
  have 6: "(bstatus (bstore w b) = BOT_PROCESSING \<longleftrightarrow> currentOrder (bstore w b) \<noteq> None) \<and>
            (currentOrder (bstore w b) \<noteq> None \<longleftrightarrow> processingTimeout (bstore w b) \<noteq> None)"
    for b
    using bot_okD [OF bots_invD(3) [OF inv(1), of b]] by (cases "bstatus (bstore w b)") auto
  show ?thesis
    using 1 2 3 4 5 6 by blast
qed

lemmas eval_defs = newController_def silent_def createNormalOrder_def createVIPOrder_def
  createOrder_def addBot_def removeBot_def timerFires_def completeOrder_def onOrderCompleted_def
  assignOrdersToIdleBots_def assignLoop.simps startProcessing_def stopProcessing_def
  call_logger_def andThen_def enqueue_def dequeue_def isEmpty_def isIdle_def isVIP_def
  upd_bot_def upd_order_def setTimeout_def clearTimeout_def Order_def Bot_def
  order_startProcessing_def complete_def returnToPending_def newOrderQueue_def
  splice_insert_def Let_def getPendingOrders_def getCompletedOrders_def getBots_def getAll_def
  queue_size_def STARTING_ORDER_NUMBER_def STARTING_BOT_ID_def

lemma example_run_facts:
  "allOrders example_run = [0, 1, 2]"
  "orders (orderQueue example_run) = [2]"
  "completedOrders example_run = [0]"
  "bots example_run = [0]"
  "ostatus (ostore example_run 0) = COMPLETE"
  "ostatus (ostore example_run 1) = PROCESSING"
  "ostatus (ostore example_run 2) = PENDING"
  "bstore example_run 0 = \<lparr>botId = 1, bstatus = BOT_PROCESSING, currentOrder = Some 1,
      processingTimeout = Some 1\<rparr>"
  unfolding example_run_def by (simp_all add: eval_defs)

theorem status_matches_location_witness:
  "0 \<in> set (allOrders example_run) \<and> ostatus (ostore example_run 0) = COMPLETE
     \<and> 0 \<in> set (getCompletedOrders example_run)
   \<and> 1 \<in> set (allOrders example_run) \<and> ostatus (ostore example_run 1) = PROCESSING
     \<and> 0 \<in> set (getBots example_run) \<and> currentOrder (bstore example_run 0) = Some 1
   \<and> 2 \<in> set (allOrders example_run) \<and> ostatus (ostore example_run 2) = PENDING
     \<and> 2 \<in> set (getPendingOrders example_run)
   \<and> bstatus (bstore example_run 0) = BOT_PROCESSING
     \<and> processingTimeout (bstore example_run 0) \<noteq> None"
  using status_matches_location [of "[AddBot, CreateNormalOrder, CreateVIPOrder,
      CreateNormalOrder, TimerFires 0]" silent, folded example_run_def]
  by (simp add: example_run_facts getPendingOrders_def getCompletedOrders_def getBots_def
      getAll_def)

lemma createOrder_created:
  "createOrder ty w =
     andThen (call_logger (OrderCreated ty (nextOrderNumber w) PENDING))
       (\<lambda>_. andThen assignOrdersToIdleBots (\<lambda>_ w'. (Inr (onew w), w')))
       (created ty w)"
  by (simp add: createOrder_def created_def Let_def Order_def)

lemma addBot_added:
  "addBot w =
     andThen (call_logger (BotCreated (nextBotId w)))
       (\<lambda>_. andThen assignOrdersToIdleBots (\<lambda>_ w'. (Inr (bnew w), w')))
       (added w)"
  by (simp add: addBot_def added_def Let_def Bot_def)

lemma bind_bound:
  assumes "bstatus (bstore w b) = IDLE"
  shows "startProcessing b (Some r) (Some (OnOrderCompleted b))
           (w\<lparr>orderQueue := snd (dequeue (ostore w) (orderQueue w))\<rparr>) = (Inr (), bound b r w)"
  using assms by (simp add: startProcessing_idle bound_def)

lemma assignLoop_bound:
  assumes "orders (orderQueue w) = r # q" "bstatus (bstore w b) = IDLE"
  shows "assignLoop (b # rest) w =
     andThen (call_logger (BotPickedUp (botId (bstore w b)) (otype (ostore w r))
                (orderNumber (ostore w r)) PROCESSING))
       (\<lambda>_. assignLoop rest) (bound b r w)"
  unfolding assignLoop_Cons [OF assms(1)]
  by (simp add: andThen_def bind_bound [OF assms(2)]) (simp add: bound_def)

lemma removeBot_popped:
  assumes "bots w \<noteq> []"
    and "processingTimeout (bstore w (last (bots w))) = None"
    and "currentOrder (bstore w (last (bots w))) = None"
  shows "removeBot w =
     andThen (call_logger (BotDestroyedIdle (botId (bstore w (last (bots w))))))
       (\<lambda>_ w'. (Inr (Some (last (bots w))), w')) (popped w)"
  unfolding removeBot_idle [OF assms] popped_def
  by (simp add: andThen_def split: prod.splits sum.splits)

lemma removeBot_preempted:
  assumes "bots w \<noteq> []"
    and "processingTimeout (bstore w (last (bots w))) = Some t"
    and "currentOrder (bstore w (last (bots w))) = Some r"
  shows "removeBot w =
     andThen (call_logger (BotDestroyedProcessing (botId (bstore w (last (bots w))))
                 (orderNumber (ostore w r))))
       (\<lambda>_. andThen assignOrdersToIdleBots (\<lambda>_ w'. (Inr (Some (last (bots w))), w')))
       (preempted t r w)"
  unfolding removeBot_busy [OF assms] preempted_def by simp

lemma timerFires_finished:
  assumes "timers w t = Some (b, Some (OnOrderCompleted b))"
    and "processingTimeout (bstore w b) = Some t"
    and "currentOrder (bstore w b) = Some r"
  shows "timerFires t w =
     andThen (call_logger (BotCompleted (botId (bstore w b)) (otype (ostore w r))
                (orderNumber (ostore w r)) COMPLETE))
       (\<lambda>_. andThen assignOrdersToIdleBots
          (\<lambda>_ w'. if isEmpty (orderQueue w') \<and> isIdle (bstore w' b)
                   then call_logger (BotNowIdle (botId (bstore w' b))) w'
                   else (Inr (), w')))
       (finished b t r w)"
  unfolding timerFires_busy [OF assms]
  by (simp add: onOrderCompleted_def finished_def Let_def)

lemma consistentI: "bots_inv w \<Longrightarrow> timers_inv w \<Longrightarrow> orders_inv w \<Longrightarrow> consistent w"
  by (simp add: consistent_def)

lemma consistent_created:
  assumes ok: "consistent w"
  shows "consistent (created ty w)"
proof (rule consistentI)
  note inv = consistentD [OF ok]
  show "bots_inv (created ty w)"
    using inv(1) bots_inv_cong [of "created ty w" w] by (simp add: created_def)
  show "timers_inv (created ty w)"
    using inv(2) timers_inv_cong [of "created ty w" w] by (simp add: created_def)
  show "orders_inv (created ty w)"
    by (rule orders_inv_create [OF inv(3),
          where h = "(ostore w)(onew w := Order (nextOrderNumber w) ty)"])
       (simp_all add: created_def Order_def)
qed

lemma consistent_added:
  assumes ok: "consistent w"
  shows "consistent (added w)"
proof (rule consistentI)
  note inv = consistentD [OF ok]
  note B = bots_invD [OF inv(1)]
  have fresh: "bnew w \<notin> set (bots w)" using B(2) [of "bnew w"] by auto
  show "bots_inv (added w)"
    using B fresh by (auto simp: bots_inv_def added_def bot_ok_def Bot_def less_Suc_eq)
  show "timers_inv (added w)"
  proof (rule timers_invI)
    fix t b cb
    assume "timers (added w) t = Some (b, cb)"
    then have old: "timers w t = Some (b, cb)" by (simp add: added_def)
    from timers_invD1 [OF inv(2) old] fresh
    show "b \<in> set (bots (added w)) \<and> processingTimeout (bstore (added w) b) = Some t \<and>
        cb = Some (OnOrderCompleted b) \<and> t < tnew (added w)"
      by (auto simp: added_def)
  next
    fix b t
    assume "processingTimeout (bstore (added w) b) = Some t"
    then have "processingTimeout (bstore w b) = Some t"
      by (auto simp: added_def Bot_def split: if_splits)
    from timers_invD2 [OF inv(2) this]
    show "timers (added w) t = Some (b, Some (OnOrderCompleted b))" by (simp add: added_def)
  qed
  show "orders_inv (added w)"
  proof (rule orders_inv_holders [OF inv(3)])
    fix c r
    assume "currentOrder (bstore (added w) c) = Some r"
    then show "currentOrder (bstore w c) = Some r"
      by (auto simp: added_def Bot_def split: if_splits)
  next
    fix c r
    assume "c \<in> set (bots w)" "currentOrder (bstore w c) = Some r"
    then show "c \<in> set (bots (added w)) \<and> currentOrder (bstore (added w) c) = Some r"
      using fresh by (auto simp: added_def)
  qed (simp_all add: added_def)
qed

lemma consistent_bound:
  assumes ok: "consistent w" and b: "b \<in> set (bots w)" and idle: "bstatus (bstore w b) = IDLE"
    and q: "orders (orderQueue w) = r # q"
  shows "consistent (bound b r w)"
proof (rule consistentI)
  note inv = consistentD [OF ok]
  note none = idle_no_timeout [OF inv(1) idle]
  have dq: "orders (snd (dequeue (ostore w) (orderQueue w))) = q"
    using dequeue_Cons [OF q] by simp
  show "bots_inv (bound b r w)"
    using bots_invD [OF inv(1)] by (auto simp: bots_inv_def bot_ok_def bound_def)
  show "timers_inv (bound b r w)"
    by (rule timers_inv_bind [OF inv(2) b conjunct1 [OF none]]) (simp_all add: bound_def)
  show "orders_inv (bound b r w)"
    by (rule orders_inv_bind [OF inv(3) b conjunct2 [OF none] q]) (simp_all add: bound_def dq)
qed

lemma in_butlast_others:
  assumes "xs \<noteq> []" "c \<in> set xs" "c \<noteq> last xs"
  shows "c \<in> set (butlast xs)"
  by (rule last_butlast_set [OF assms])

lemma consistent_popped:
  assumes ok: "consistent w" and ne: "bots w \<noteq> []"
    and none: "processingTimeout (bstore w (last (bots w))) = None"
    and cur: "currentOrder (bstore w (last (bots w))) = None"
  shows "consistent (popped w)"
proof (rule consistentI)
  note inv = consistentD [OF ok]
  note B = bots_invD [OF inv(1)]
  show "bots_inv (popped w)"
    by (rule bots_inv_shrink [OF inv(1) ne]) (simp_all add: popped_def B(3))
  show "timers_inv (popped w)"
    by (rule timers_inv_drop [OF inv(2), where b = "last (bots w)"])
       (auto simp: popped_def none last_butlast_set [OF ne])
  show "orders_inv (popped w)"
  proof (rule orders_inv_holders [OF inv(3)])
    fix c r
    assume c: "c \<in> set (bots w)" "currentOrder (bstore w c) = Some r"
    with cur have "c \<noteq> last (bots w)" by auto
    with c last_butlast_set [OF ne c(1)]
    show "c \<in> set (bots (popped w)) \<and> currentOrder (bstore (popped w) c) = Some r"
      by (simp add: popped_def)
  qed (simp_all add: popped_def)
qed

lemma consistent_preempted:
  assumes ok: "consistent w" and ne: "bots w \<noteq> []"
    and t: "processingTimeout (bstore w (last (bots w))) = Some t"
    and cur: "currentOrder (bstore w (last (bots w))) = Some r"
  shows "consistent (preempted t r w)"
proof (rule consistentI)
  note inv = consistentD [OF ok]
  note B = bots_invD [OF inv(1)]
  have "bot_ok (bstore (preempted t r w) c)" for c
    using B(3) [of c] by (auto simp: preempted_def bot_ok_def)
  then show "bots_inv (preempted t r w)"
    by (intro bots_inv_shrink [OF inv(1) ne]) (simp_all add: preempted_def)
  show "timers_inv (preempted t r w)"
    by (rule timers_inv_drop [OF inv(2), where b = "last (bots w)"])
       (auto simp: preempted_def t last_butlast_set [OF ne])
  show "orders_inv (preempted t r w)"
    by (rule orders_inv_requeue [OF inv(3) cur,
          where h = "(ostore w)(r := (ostore w r)\<lparr>ostatus := PENDING\<rparr>)"])
       (auto simp: preempted_def last_butlast_set [OF ne])
qed

lemma consistent_finished:
  assumes ok: "consistent w"
    and t: "processingTimeout (bstore w b) = Some t"
    and cur: "currentOrder (bstore w b) = Some r"
  shows "consistent (finished b t r w)"
proof (rule consistentI)
  note inv = consistentD [OF ok]
  note B = bots_invD [OF inv(1)]
  show "bots_inv (finished b t r w)"
    using B by (simp add: bots_inv_def finished_def bot_ok_def)
  show "timers_inv (finished b t r w)"
    by (rule timers_inv_drop [OF inv(2), where b = b]) (auto simp: finished_def t)
  show "orders_inv (finished b t r w)"
    by (rule orders_inv_complete [OF inv(3) cur]) (auto simp: finished_def)
qed

lemma loop_stableI:
  assumes "\<And>w. Q w \<Longrightarrow> consistent w"
    and "\<And>w c. Q w \<Longrightarrow> Q (w\<lparr>calls := c\<rparr>)"
    and "\<And>w b r q. Q w \<Longrightarrow> b \<in> set (bots w) \<Longrightarrow> bstatus (bstore w b) = IDLE \<Longrightarrow>
        orders (orderQueue w) = r # q \<Longrightarrow> Q (bound b r w)"
  shows "loop_stable Q"
  unfolding loop_stable_def by (intro conjI allI impI assms)

lemma loop_stableD:
  assumes "loop_stable Q" "Q w"
  shows "consistent w"
    and "Q (w\<lparr>calls := c\<rparr>)"
    and "b \<in> set (bots w) \<Longrightarrow> bstatus (bstore w b) = IDLE \<Longrightarrow>
        orders (orderQueue w) = r # q \<Longrightarrow> Q (bound b r w)"
proof -
  note s = assms(1) [unfolded loop_stable_def]
  show "consistent w"
    by (rule s [THEN conjunct1, rule_format, OF assms(2)])
  show "Q (w\<lparr>calls := c\<rparr>)"
    by (rule s [THEN conjunct2, THEN conjunct1, rule_format, OF assms(2)])
  show "b \<in> set (bots w) \<Longrightarrow> bstatus (bstore w b) = IDLE \<Longrightarrow>
        orders (orderQueue w) = r # q \<Longrightarrow> Q (bound b r w)"
    by (rule s [THEN conjunct2, THEN conjunct2, rule_format, OF assms(2)])
qed

lemma stableI:
  assumes "loop_stable Q"
    and "\<And>w ty. Q w \<Longrightarrow> Q (created ty w)"
    and "\<And>w. Q w \<Longrightarrow> Q (added w)"
    and "\<And>w. Q w \<Longrightarrow> bots w \<noteq> [] \<Longrightarrow> processingTimeout (bstore w (last (bots w))) = None \<Longrightarrow>
        currentOrder (bstore w (last (bots w))) = None \<Longrightarrow> Q (popped w)"
    and "\<And>w t r. Q w \<Longrightarrow> bots w \<noteq> [] \<Longrightarrow>
        processingTimeout (bstore w (last (bots w))) = Some t \<Longrightarrow>
        currentOrder (bstore w (last (bots w))) = Some r \<Longrightarrow> Q (preempted t r w)"
    and "\<And>w b t r. Q w \<Longrightarrow> timers w t = Some (b, Some (OnOrderCompleted b)) \<Longrightarrow>
        processingTimeout (bstore w b) = Some t \<Longrightarrow> currentOrder (bstore w b) = Some r \<Longrightarrow>
        Q (finished b t r w)"
  shows "stable Q"
  unfolding stable_def by (intro conjI allI impI assms)

lemma stableD:
  assumes "stable Q"
  shows "loop_stable Q"
    and "Q w \<Longrightarrow> Q (created ty w)"
    and "Q w \<Longrightarrow> Q (added w)"
    and "Q w \<Longrightarrow> bots w \<noteq> [] \<Longrightarrow> processingTimeout (bstore w (last (bots w))) = None \<Longrightarrow>
        currentOrder (bstore w (last (bots w))) = None \<Longrightarrow> Q (popped w)"
    and "Q w \<Longrightarrow> bots w \<noteq> [] \<Longrightarrow> processingTimeout (bstore w (last (bots w))) = Some t \<Longrightarrow>
        currentOrder (bstore w (last (bots w))) = Some r \<Longrightarrow> Q (preempted t r w)"
    and "Q w \<Longrightarrow> timers w t = Some (b, Some (OnOrderCompleted b)) \<Longrightarrow>
        processingTimeout (bstore w b) = Some t \<Longrightarrow> currentOrder (bstore w b) = Some r \<Longrightarrow>
        Q (finished b t r w)"
proof -
  note s = assms(1) [unfolded stable_def]
  show "loop_stable Q"
    by (rule s [THEN conjunct1])
  show "Q w \<Longrightarrow> Q (created ty w)"
    by (rule s [THEN conjunct2, THEN conjunct1, rule_format])
  show "Q w \<Longrightarrow> Q (added w)"
    by (rule s [THEN conjunct2, THEN conjunct2, THEN conjunct1, rule_format])
  show "Q w \<Longrightarrow> bots w \<noteq> [] \<Longrightarrow> processingTimeout (bstore w (last (bots w))) = None \<Longrightarrow>
        currentOrder (bstore w (last (bots w))) = None \<Longrightarrow> Q (popped w)"
    by (rule s [THEN conjunct2, THEN conjunct2, THEN conjunct2, THEN conjunct1, rule_format])
  show "Q w \<Longrightarrow> bots w \<noteq> [] \<Longrightarrow> processingTimeout (bstore w (last (bots w))) = Some t \<Longrightarrow>
        currentOrder (bstore w (last (bots w))) = Some r \<Longrightarrow> Q (preempted t r w)"
    by (rule s [THEN conjunct2, THEN conjunct2, THEN conjunct2, THEN conjunct2, THEN conjunct1,
          rule_format])
  show "Q w \<Longrightarrow> timers w t = Some (b, Some (OnOrderCompleted b)) \<Longrightarrow>
        processingTimeout (bstore w b) = Some t \<Longrightarrow> currentOrder (bstore w b) = Some r \<Longrightarrow>
        Q (finished b t r w)"
    by (rule s [THEN conjunct2, THEN conjunct2, THEN conjunct2, THEN conjunct2, THEN conjunct2,
          rule_format])
qed

lemma loop_stable_call_logger:
  assumes "loop_stable Q" "Q w"
  shows "Q (snd (call_logger m w))"
  using loop_stableD(2) [OF assms] by (simp add: call_logger_def)

lemma loop_stable_logged:
  assumes st: "loop_stable Q" and v: "Q v" and f: "\<And>u. Q u \<Longrightarrow> Q (snd (f u))"
  shows "Q (snd (andThen (call_logger m) (\<lambda>_. f) v))"
proof (rule snd_andThen [where P = Q])
  show "Q (snd (call_logger m v))" by (rule loop_stable_call_logger [OF st v])
next
  fix a :: unit and u
  assume "Q u"
  then show "Q (snd (f u))" by (rule f)
qed

lemma loop_stable_assignLoop:
  assumes st: "loop_stable Q"
  shows "Q w \<Longrightarrow> distinct bs \<Longrightarrow> set bs \<subseteq> set (bots w) \<Longrightarrow>
    \<forall>b \<in> set bs. bstatus (bstore w b) = IDLE \<Longrightarrow> Q (snd (assignLoop bs w))"
proof (induction bs arbitrary: w)
  case Nil
  then show ?case by (simp add: assignLoop_Nil)
next
  case (Cons b rest)
  show ?case
  proof (cases "orders (orderQueue w)")
    case Nil
    with Cons.prems(1) show ?thesis by (simp add: assignLoop_empty)
  next
    case (Cons r q)
    have b: "b \<in> set (bots w)" "bstatus (bstore w b) = IDLE" "b \<notin> set rest"
      using Cons.prems by auto
    define R where "R = (\<lambda>v. Q v \<and> set rest \<subseteq> set (bots v) \<and>
        (\<forall>c \<in> set rest. bstatus (bstore v c) = IDLE))"
    have "Q (bound b r w)" by (rule loop_stableD(3) [OF st Cons.prems(1) b(1,2) Cons])
    then have R1: "R (bound b r w)"
      using Cons.prems b(3) by (auto simp: R_def bound_def)
    have Rlog: "R (snd (call_logger m v))" if "R v" for m v
      using that loop_stable_call_logger [OF st, of v m] by (simp add: R_def call_logger_def)
    have Rloop: "R v \<Longrightarrow> Q (snd (assignLoop rest v))" for v
      using Cons.prems(2) by (intro Cons.IH) (auto simp: R_def)
    have "Q (snd (andThen (call_logger m) (\<lambda>_. assignLoop rest) (bound b r w)))" for m
    proof (cases "call_logger m (bound b r w)")
      case (Pair res v)
      have "R v" using Rlog [OF R1, of m] Pair by simp
      then show ?thesis
        using Pair Rloop [of v] by (cases res) (simp_all add: andThen_def R_def)
    qed
    then show ?thesis
      unfolding assignLoop_bound [OF Cons b(2)] .
  qed
qed

lemma loop_stable_assign:
  assumes st: "loop_stable Q" and w: "Q w"
  shows "Q (snd (assignOrdersToIdleBots w))"
proof -
  have "distinct (bots w)"
    using bots_invD(1) [OF consistentD(1) [OF loop_stableD(1) [OF st w]]] .
  then show ?thesis
    using w
    by (simp add: assignOrdersToIdleBots_def Let_def isIdle_def loop_stable_assignLoop [OF st])
qed

lemma loop_stable_assign_then:
  assumes st: "loop_stable Q" and w: "Q w"
  shows "Q (snd (andThen assignOrdersToIdleBots (\<lambda>_ w'. (Inr x, w')) w))"
  by (rule snd_andThen [where P = Q]) (simp_all add: loop_stable_assign [OF st w])

lemma loop_stable_createOrder:
  assumes st: "loop_stable Q" and w: "Q (created ty w)"
  shows "Q (snd (createOrder ty w))"
  unfolding createOrder_created
  by (rule loop_stable_logged [OF st w]) (rule loop_stable_assign_then [OF st])

lemma loop_stable_addBot:
  assumes st: "loop_stable Q" and w: "Q (added w)"
  shows "Q (snd (addBot w))"
  unfolding addBot_added
  by (rule loop_stable_logged [OF st w]) (rule loop_stable_assign_then [OF st])

lemma last_bot_cases:
  assumes ok: "consistent w"
  obtains "processingTimeout (bstore w (last (bots w))) = None"
      "currentOrder (bstore w (last (bots w))) = None"
    | t r where "processingTimeout (bstore w (last (bots w))) = Some t"
      "currentOrder (bstore w (last (bots w))) = Some r"
proof -
  note okb = bot_okD [OF bots_invD(3) [OF consistentD(1) [OF ok], of "last (bots w)"]]
  show thesis
  proof (cases "processingTimeout (bstore w (last (bots w)))")
    case None
    with okb have "currentOrder (bstore w (last (bots w))) = None" by simp
    with None that(1) show ?thesis by blast
  next
    case (Some t)
    with okb obtain r where "currentOrder (bstore w (last (bots w))) = Some r" by auto
    with Some that(2) show ?thesis by blast
  qed
qed

lemma loop_stable_removeBot:
  assumes st: "loop_stable Q" and ok: "consistent w"
    and empty: "bots w = [] \<Longrightarrow> Q w"
    and idle: "bots w \<noteq> [] \<Longrightarrow> processingTimeout (bstore w (last (bots w))) = None \<Longrightarrow>
        currentOrder (bstore w (last (bots w))) = None \<Longrightarrow> Q (popped w)"
    and busy: "\<And>t r. bots w \<noteq> [] \<Longrightarrow>
        processingTimeout (bstore w (last (bots w))) = Some t \<Longrightarrow>
        currentOrder (bstore w (last (bots w))) = Some r \<Longrightarrow> Q (preempted t r w)"
  shows "Q (snd (removeBot w))"
proof (cases "bots w = []")
  case True
  with empty show ?thesis by (simp add: removeBot_empty)
next
  case False
  from ok show ?thesis
  proof (cases rule: last_bot_cases)
    case 1
    show ?thesis
      unfolding removeBot_popped [OF False 1]
      by (rule loop_stable_logged [OF st idle [OF False 1]]) simp
  next
    case (2 t r)
    show ?thesis
      unfolding removeBot_preempted [OF False 2]
      by (rule loop_stable_logged [OF st busy [OF False 2]])
         (rule loop_stable_assign_then [OF st])
  qed
qed

lemma timer_cases:
  assumes ok: "consistent w"
  obtains "timers w t = None"
    | b r where "timers w t = Some (b, Some (OnOrderCompleted b))"
      "processingTimeout (bstore w b) = Some t" "currentOrder (bstore w b) = Some r"
proof (cases "timers w t")
  case None
  with that(1) show ?thesis by blast
next
  case (Some p)
  obtain b cb where p: "p = (b, cb)" by (cases p)
  note inv = consistentD [OF ok]
  note T = timers_invD1 [OF inv(2) Some [unfolded p]]
  from bot_okD [OF bots_invD(3) [OF inv(1), of b]] T(2)
  obtain r where cur: "currentOrder (bstore w b) = Some r" by auto
  from that(2) [OF Some [unfolded p T(3)] T(2) cur] show ?thesis .
qed

lemma loop_stable_timerFires:
  assumes st: "loop_stable Q" and ok: "consistent w"
    and none: "timers w t = None \<Longrightarrow> Q w"
    and fin: "\<And>b r. timers w t = Some (b, Some (OnOrderCompleted b)) \<Longrightarrow>
        processingTimeout (bstore w b) = Some t \<Longrightarrow> currentOrder (bstore w b) = Some r \<Longrightarrow>
        Q (finished b t r w)"
  shows "Q (snd (timerFires t w))"
  using ok
proof (cases rule: timer_cases [where t = t])
  case 1
  with none show ?thesis by (simp add: timerFires_idle)
next
  case (2 b r)
  show ?thesis
    unfolding timerFires_finished [OF 2]
  proof (rule loop_stable_logged [OF st fin [OF 2]])
    fix u
    assume u: "Q u"
    show "Q (snd (andThen assignOrdersToIdleBots
          (\<lambda>_ w'. if isEmpty (orderQueue w') \<and> isIdle (bstore w' b)
                   then call_logger (BotNowIdle (botId (bstore w' b))) w' else (Inr (), w')) u))"
    proof (rule snd_andThen [where P = Q])
      show "Q (snd (assignOrdersToIdleBots u))" by (rule loop_stable_assign [OF st u])
    next
      fix a :: unit and v
      assume "Q v"
      then show "Q (snd (if isEmpty (orderQueue v) \<and> isIdle (bstore v b)
                   then call_logger (BotNowIdle (botId (bstore v b))) v else (Inr (), v)))"
        by (simp add: loop_stable_call_logger [OF st])
    qed
  qed
qed

lemma stable_step:
  assumes st: "stable Q" and w: "Q w"
  shows "Q (step e w)"
proof -
  note ls = stableD(1) [OF st]
  note ok = loop_stableD(1) [OF ls w]
  show ?thesis
  proof (cases e)
    case CreateNormalOrder
    then show ?thesis
      by (simp add: createNormalOrder_def loop_stable_createOrder [OF ls stableD(2) [OF st w]])
  next
    case CreateVIPOrder
    then show ?thesis
      by (simp add: createVIPOrder_def loop_stable_createOrder [OF ls stableD(2) [OF st w]])
  next
    case AddBot
    then show ?thesis
      by (simp add: loop_stable_addBot [OF ls stableD(3) [OF st w]])
  next
    case RemoveBot
    have "Q (snd (removeBot w))"
      by (rule loop_stable_removeBot [OF ls ok w stableD(4) [OF st w] stableD(5) [OF st w]])
    with RemoveBot show ?thesis by simp
  next
    case (TimerFires t)
    have "Q (snd (timerFires t w))"
      by (rule loop_stable_timerFires [OF ls ok w stableD(6) [OF st w]])
    with TimerFires show ?thesis by simp
  qed
qed

lemma stable_run: "stable Q \<Longrightarrow> Q w \<Longrightarrow> Q (run es w)"
  by (induction es arbitrary: w) (simp_all add: stable_step)

lemma loop_stable_consistent: "loop_stable consistent"
  by (rule loop_stableI) (simp_all add: consistent_bound)

lemma stable_consistent: "stable consistent"
  by (rule stableI [OF loop_stable_consistent])
     (simp_all add: consistent_created consistent_added consistent_popped
        consistent_preempted consistent_finished)

lemma sorted_wrt_butlast: "sorted_wrt P xs \<Longrightarrow> sorted_wrt P (butlast xs)"
proof (cases "xs = []")
  case True
  then show ?thesis by simp
next
  case False
  assume "sorted_wrt P xs"
  then have "sorted_wrt P (butlast xs @ [last xs])" using False by simp
  then show ?thesis unfolding sorted_wrt_append by simp
qed

lemma ids_inv_calls: "ids_inv (w\<lparr>calls := c\<rparr>) = ids_inv w"
  by (simp add: ids_inv_def)

lemma ids_inv_created: "ids_inv w \<Longrightarrow> ids_inv (created ty w)"
  by (auto simp: ids_inv_def created_def Order_def less_Suc_eq)

lemma ids_inv_added:
  assumes "bots_inv w" "ids_inv w"
  shows "ids_inv (added w)"
  using assms(2) bots_invD(2) [OF assms(1)]
  by (auto simp: ids_inv_def added_def Bot_def less_Suc_eq sorted_wrt_append)

lemma ids_inv_bound: "ids_inv w \<Longrightarrow> ids_inv (bound b r w)"
  by (auto simp: ids_inv_def bound_def)

lemma ids_inv_popped: "ids_inv w \<Longrightarrow> ids_inv (popped w)"
  by (auto simp: ids_inv_def popped_def sorted_wrt_butlast)

lemma ids_inv_preempted: "ids_inv w \<Longrightarrow> ids_inv (preempted t r w)"
  by (auto simp: ids_inv_def preempted_def sorted_wrt_butlast)

lemma ids_inv_finished: "ids_inv w \<Longrightarrow> ids_inv (finished b t r w)"
  by (auto simp: ids_inv_def finished_def)

lemma stable_ids: "stable (\<lambda>w. consistent w \<and> ids_inv w)"
proof (rule stableI)
  show "loop_stable (\<lambda>w. consistent w \<and> ids_inv w)"
    by (rule loop_stableI) (simp_all add: consistent_bound ids_inv_bound ids_inv_calls)
qed (simp_all add: consistent_created consistent_added consistent_popped consistent_preempted
      consistent_finished ids_inv_created ids_inv_added consistentD(1) ids_inv_popped
      ids_inv_preempted ids_inv_finished)

lemma ids_inv_new: "ids_inv (newController lg)"
  by (simp add: ids_inv_def newController_def)

lemma ids_reachable: "ids_inv (run es (newController lg))"
  using stable_run [OF stable_ids, of "newController lg" es] consistent_new ids_inv_new
  by simp

text \<open>The numbers of allocated orders and bots change with creations only.\<close>

lemma loop_stable_counts: "loop_stable (\<lambda>v. consistent v \<and> onew v = n \<and> bnew v = m)"
  by (rule loop_stableI) (simp_all add: consistent_bound, simp_all add: bound_def)

lemma counts_step:
  assumes ok: "consistent w"
  shows "onew (step e w) =
           onew w + (if e = CreateNormalOrder \<or> e = CreateVIPOrder then 1 else 0)
       \<and> bnew (step e w) = bnew w + (if e = AddBot then 1 else 0)"
proof -
  have create: "onew (snd (createOrder ty w)) = onew w + 1 \<and> bnew (snd (createOrder ty w)) = bnew w"
    for ty
    using loop_stable_createOrder [OF loop_stable_counts [of "onew w + 1" "bnew w"], of ty w]
      consistent_created [OF ok, of ty]
    by (simp add: created_def)
  have add: "onew (snd (addBot w)) = onew w \<and> bnew (snd (addBot w)) = bnew w + 1"
    using loop_stable_addBot [OF loop_stable_counts [of "onew w" "bnew w + 1"], of w]
      consistent_added [OF ok]
    by (simp add: added_def)
  have remove: "onew (snd (removeBot w)) = onew w \<and> bnew (snd (removeBot w)) = bnew w"
    using loop_stable_removeBot [OF loop_stable_counts [of "onew w" "bnew w"] ok]
      consistent_popped [OF ok] consistent_preempted [OF ok] ok
    by (simp add: popped_def preempted_def)
  have fire: "onew (snd (timerFires t w)) = onew w \<and> bnew (snd (timerFires t w)) = bnew w"
    for t
    using loop_stable_timerFires [OF loop_stable_counts [of "onew w" "bnew w"] ok, of t]
      consistent_finished [OF ok] ok
    by (simp add: finished_def)
  show ?thesis
    using create add remove fire
    by (cases e) (simp_all add: createNormalOrder_def createVIPOrder_def)
qed

lemma counts_run:
  "consistent w \<Longrightarrow>
     onew (run es w) = onew w + orders_created es \<and> bnew (run es w) = bnew w + bots_created es"
proof (induction es arbitrary: w)
  case Nil
  then show ?case by (simp add: orders_created_def bots_created_def)
next
  case (Cons e es)
  from Cons.IH [OF stable_step [OF stable_consistent Cons.prems], of e] counts_step [OF Cons.prems, of e]
  show ?case by (simp add: orders_created_def bots_created_def)
qed

lemma counts_reachable:
  "onew (run es (newController lg)) = orders_created es"
  "bnew (run es (newController lg)) = bots_created es"
  using counts_run [OF consistent_new, of es lg] by (simp_all add: newController_def)

lemma createOrder_result: "fst (createOrder ty w) = Inr r \<Longrightarrow> r = onew w"
  unfolding createOrder_created
  by (auto simp: andThen_def split: prod.splits sum.splits)

lemma addBot_result: "fst (addBot w) = Inr b \<Longrightarrow> b = bnew w"
  unfolding addBot_added
  by (auto simp: andThen_def split: prod.splits sum.splits)

lemma run_append: "run (es @ es') w = run es' (run es w)"
  by (induction es arbitrary: w) simp_all

text \<open>Claim C10. Along every run of a controller, whatever the interleaving of order
  creations, bot additions and other events and whatever the order types: the numbers of
  the orders in creation order are 1001, 1002, ... (one per creation call so far), the order
  returned by the next \<open>createNormalOrder\<close> or \<open>createVIPOrder\<close> gets the next number of that
  one sequence, the bot returned by the next \<open>addBot\<close> gets the id 1 plus the number of
  bots created so far, and the ids of the bots of the pool are strictly increasing in pool
  order and lie in that second sequence.\<close>

theorem ids_strictly_increasing:
  fixes lg :: "message list \<Rightarrow> message \<Rightarrow> bool" and es :: "event list"
  defines "w \<equiv> run es (newController lg)"
  shows "map (\<lambda>r. orderNumber (ostore w r)) (allOrders w) =
           map (\<lambda>i. STARTING_ORDER_NUMBER + int i) [0..<orders_created es]
       \<and> (\<forall>r. fst (createNormalOrder w) = Inr r \<longrightarrow>
             orderNumber (ostore (snd (createNormalOrder w)) r) =
               STARTING_ORDER_NUMBER + int (orders_created es))
       \<and> (\<forall>r. fst (createVIPOrder w) = Inr r \<longrightarrow>
             orderNumber (ostore (snd (createVIPOrder w)) r) =
               STARTING_ORDER_NUMBER + int (orders_created es))
       \<and> (\<forall>b. fst (addBot w) = Inr b \<longrightarrow>
             botId (bstore (snd (addBot w)) b) = STARTING_BOT_ID + int (bots_created es))
       \<and> sorted_wrt (<) (map (\<lambda>b. botId (bstore w b)) (bots w))
       \<and> (\<forall>b \<in> set (bots w). STARTING_BOT_ID \<le> botId (bstore w b) \<and>
             botId (bstore w b) < STARTING_BOT_ID + int (bots_created es))"
proof -
  have ids: "ids_inv w" unfolding w_def by (rule ids_reachable)
  have n: "onew w = orders_created es" "bnew w = bots_created es"
    unfolding w_def by (rule counts_reachable)+
  have ok: "consistent w" unfolding w_def by (rule consistent_reachable)
  have number: "orderNumber (ostore w r) = STARTING_ORDER_NUMBER + int r" if "r < onew w" for r
    using ids that by (simp add: ids_inv_def)
  have id: "botId (bstore w b) = STARTING_BOT_ID + int b" if "b < bnew w" for b
    using ids that by (simp add: ids_inv_def)
  have pool: "b < bnew w" if "b \<in> set (bots w)" for b
    using bots_invD(2) [OF consistentD(1) [OF ok] that] .
  have 1: "map (\<lambda>r. orderNumber (ostore w r)) (allOrders w) =
           map (\<lambda>i. STARTING_ORDER_NUMBER + int i) [0..<orders_created es]"
    using ids number by (simp add: ids_inv_def n [symmetric])
  have next_order: "orderNumber (ostore (snd (createOrder ty w)) r) =
               STARTING_ORDER_NUMBER + int (orders_created es)"
    if "fst (createOrder ty w) = Inr r" for ty r
  proof -
    let ?e = "if ty = NORMAL then CreateNormalOrder else CreateVIPOrder"
    have s: "snd (createOrder ty w) = run (es @ [?e]) (newController lg)"
      by (cases ty) (simp_all add: w_def run_append createNormalOrder_def createVIPOrder_def)
    have "ids_inv (snd (createOrder ty w))" unfolding s by (rule ids_reachable)
    moreover have "onew (snd (createOrder ty w)) = Suc (onew w)"
      unfolding s counts_reachable n by (simp add: orders_created_def)
    moreover have "r = onew w" by (rule createOrder_result [OF that])
    ultimately show ?thesis by (simp add: ids_inv_def n)
  qed
  have next_bot: "botId (bstore (snd (addBot w)) b) = STARTING_BOT_ID + int (bots_created es)"
    if "fst (addBot w) = Inr b" for b
  proof -
    have s: "snd (addBot w) = run (es @ [AddBot]) (newController lg)"
      by (simp add: w_def run_append)
    have "ids_inv (snd (addBot w))" unfolding s by (rule ids_reachable)
    moreover have "bnew (snd (addBot w)) = Suc (bnew w)"
      unfolding s counts_reachable n by (simp add: bots_created_def)
    moreover have "b = bnew w" by (rule addBot_result [OF that])
    ultimately show ?thesis by (simp add: ids_inv_def n)
  qed
  have "sorted_wrt (<) (bots w)" using ids by (simp add: ids_inv_def)
  then have 5: "sorted_wrt (<) (map (\<lambda>b. botId (bstore w b)) (bots w))"
    unfolding sorted_wrt_map
    by (rule sorted_wrt_mono_rel [rotated]) (simp add: id pool)
  have 6: "STARTING_BOT_ID \<le> botId (bstore w b) \<and>
             botId (bstore w b) < STARTING_BOT_ID + int (bots_created es)"
    if "b \<in> set (bots w)" for b
    using id [OF pool [OF that]] pool [OF that] by (simp add: n)
  show ?thesis
    using 1 next_order [of NORMAL] next_order [of VIP] next_bot 5 6
    unfolding createNormalOrder_def createVIPOrder_def by blast
qed

lemma example_ids_run_facts:
  "map (\<lambda>r. orderNumber (ostore example_ids_run r)) (allOrders example_ids_run) =
     [1001, 1002, 1003]"
  "fst (createNormalOrder example_ids_run) = Inr 3"
  "orderNumber (ostore (snd (createNormalOrder example_ids_run)) 3) = 1004"
  "fst (createVIPOrder example_ids_run) = Inr 3"
  "orderNumber (ostore (snd (createVIPOrder example_ids_run)) 3) = 1004"
  "fst (addBot example_ids_run) = Inr 3"
  "botId (bstore (snd (addBot example_ids_run)) 3) = 4"
  "bots example_ids_run = [0, 2]"
  "botId (bstore example_ids_run 0) = 1"
  "botId (bstore example_ids_run 2) = 3"
  unfolding example_ids_run_def by (simp_all add: eval_defs)

theorem ids_strictly_increasing_witness:
  "map (\<lambda>r. orderNumber (ostore example_ids_run r)) (allOrders example_ids_run) =
     [1001, 1002, 1003]
   \<and> fst (createNormalOrder example_ids_run) = Inr 3
   \<and> orderNumber (ostore (snd (createNormalOrder example_ids_run)) 3) = 1004
   \<and> fst (createVIPOrder example_ids_run) = Inr 3
   \<and> orderNumber (ostore (snd (createVIPOrder example_ids_run)) 3) = 1004
   \<and> fst (addBot example_ids_run) = Inr 3
   \<and> botId (bstore (snd (addBot example_ids_run)) 3) = 4
   \<and> 2 \<in> set (bots example_ids_run)
   \<and> botId (bstore example_ids_run 2) = 3"
  using ids_strictly_increasing [of "[CreateNormalOrder, AddBot, CreateVIPOrder, AddBot,
      RemoveBot, AddBot, CreateNormalOrder]" silent, folded example_ids_run_def]
  by (simp add: example_ids_run_facts orders_created_def bots_created_def
      STARTING_ORDER_NUMBER_def STARTING_BOT_ID_def)

text \<open>Claim C8. \<open>startProcessing\<close> on a bot whose status is not \<open>IDLE\<close> throws and leaves
  the world as it was, whatever the order argument; on an \<open>IDLE\<close> bot with an order it
  returns normally; so with an order it throws exactly when the bot is already
  \<open>PROCESSING\<close>, and the error \<open>Bot is already processing an order\<close> is thrown exactly
  then, whatever the argument.\<close>

theorem startProcessing_throws_iff_busy:
  "(bstatus (bstore w b) \<noteq> IDLE \<longrightarrow>
      startProcessing b order onComplete w = (Inl BotAlreadyProcessing, w))
   \<and> (bstatus (bstore w b) = IDLE \<longrightarrow> fst (startProcessing b (Some r) onComplete w) = Inr ())
   \<and> (isl (fst (startProcessing b (Some r) onComplete w)) \<longleftrightarrow>
        bstatus (bstore w b) = BOT_PROCESSING)
   \<and> (fst (startProcessing b order onComplete w) = Inl BotAlreadyProcessing \<longleftrightarrow>
        bstatus (bstore w b) = BOT_PROCESSING)"
  by (cases "bstatus (bstore w b)"; cases order)
     (simp_all add: startProcessing_def Let_def setTimeout_def split: prod.splits)

lemma example_idle_run_facts:
  "bots example_idle_run = [0]"
  "bstore example_idle_run 0 =
     \<lparr>botId = 1, bstatus = IDLE, currentOrder = None, processingTimeout = None\<rparr>"
  "orders (orderQueue example_idle_run) = []"
  unfolding example_idle_run_def by (simp_all add: eval_defs)

theorem startProcessing_throws_iff_busy_witness:
  "bstatus (bstore example_run 0) \<noteq> IDLE
   \<and> startProcessing 0 (Some 2) (Some (OnOrderCompleted 0)) example_run =
       (Inl BotAlreadyProcessing, example_run)
   \<and> bstatus (bstore example_idle_run 0) = IDLE
   \<and> fst (startProcessing 0 (Some 2) (Some (OnOrderCompleted 0)) example_idle_run) = Inr ()"
  using startProcessing_throws_iff_busy
      [of example_run 0 "Some 2" "Some (OnOrderCompleted 0)" 2]
    startProcessing_throws_iff_busy
      [of example_idle_run 0 "Some 2" "Some (OnOrderCompleted 0)" 2]
  by (simp add: example_run_facts example_idle_run_facts)

text \<open>Claim C9. The three empty cases return \<open>null\<close>, throw nothing and change nothing:
  \<open>dequeue\<close> on an empty queue, \<open>removeBot\<close> on an empty pool, and \<open>stopProcessing\<close> on an
  \<open>IDLE\<close> bot, the latter in every state the controller reaches and, more generally, for
  every bot whose three fields agree.\<close>

theorem empty_cases_return_null:
  fixes lg :: "message list \<Rightarrow> message \<Rightarrow> bool" and es :: "event list"
  defines "w \<equiv> run es (newController lg)"
  shows "(isEmpty q \<longrightarrow> dequeue h q = (None, q))
       \<and> (length (bots v) = 0 \<longrightarrow> removeBot v = (Inr None, v))
       \<and> (bstatus (bstore w b) = IDLE \<longrightarrow> stopProcessing b w = (None, w))
       \<and> (bstatus (bstore v b) = IDLE \<and> bot_ok (bstore v b) \<longrightarrow>
            stopProcessing b v = (None, v))"
proof -
  have 1: "dequeue h q = (None, q)" if "isEmpty q"
    using that by (simp add: isEmpty_def dequeue_def)
  have 2: "removeBot v = (Inr None, v)" if "length (bots v) = 0"
    using that by (simp add: removeBot_empty)
  have 4: "stopProcessing b v = (None, v)" if "bstatus (bstore v b) = IDLE" "bot_ok (bstore v b)"
    for v
    using bot_okD [OF that(2)] that(1) by (simp add: stopProcessing_idle)
  have "bot_ok (bstore w b)"
    unfolding w_def by (rule bots_invD(3) [OF consistentD(1) [OF consistent_reachable]])
  with 4 [of w] have 3: "stopProcessing b w = (None, w)" if "bstatus (bstore w b) = IDLE"
    using that by simp
  show ?thesis
    using 1 2 3 4 by blast
qed

theorem empty_cases_return_null_witness:
  "isEmpty newOrderQueue
   \<and> dequeue (\<lambda>_. Order 0 NORMAL) newOrderQueue = (None, newOrderQueue)
   \<and> length (bots (newController silent)) = 0
   \<and> removeBot (newController silent) = (Inr None, newController silent)
   \<and> bstatus (bstore example_idle_run 0) = IDLE
   \<and> bot_ok (bstore example_idle_run 0)
   \<and> stopProcessing 0 example_idle_run = (None, example_idle_run)
   \<and> bstatus (bstore (newController silent) 0) = IDLE
   \<and> bot_ok (bstore (newController silent) 0)
   \<and> stopProcessing 0 (newController silent) = (None, newController silent)"
  using empty_cases_return_null [of newOrderQueue "\<lambda>_. Order 0 NORMAL" "newController silent"
      "[AddBot]" silent 0, folded example_idle_run_def]
  by (simp add: example_idle_run_facts isEmpty_def newOrderQueue_def newController_def
      bot_ok_def Bot_def)

lemma quiet_call_logger:
  "quiet w \<Longrightarrow> call_logger m w = (Inr (), w\<lparr>calls := calls w @ [m]\<rparr>)"
  by (simp add: quiet_def call_logger_def)

lemma quiet_logger_returns: "quiet w \<Longrightarrow> logger_returns (logger w) h ms"
  by (induction ms arbitrary: h) (simp_all add: quiet_def)

lemma pickup_message_bound: "pickup_message (bound b r w) = pickup_message w"
  by (auto simp: pickup_message_def bound_def fun_eq_iff)

lemma assignLoop_bind_all:
  "distinct bs \<Longrightarrow> \<forall>b \<in> set bs. bstatus (bstore w b) = IDLE \<Longrightarrow>
   logger_returns (logger w) (calls w) (map (pickup_message w) (zip bs (orders (orderQueue w)))) \<Longrightarrow>
     assignLoop bs w = (Inr (), bind_all (zip bs (orders (orderQueue w))) w)"
proof (induction bs arbitrary: w)
  case Nil
  then show ?case by (simp add: assignLoop_Nil)
next
  case (Cons b rest)
  show ?case
  proof (cases "orders (orderQueue w)")
    case Nil
    then show ?thesis by (simp add: assignLoop_empty)
  next
    case (Cons r q)
    define m where "m = BotPickedUp (botId (bstore w b)) (otype (ostore w r))
        (orderNumber (ostore w r)) PROCESSING"
    define w1 where "w1 = (bound b r w)\<lparr>calls := calls w @ [m]\<rparr>"
    have idle: "bstatus (bstore w b) = IDLE" using Cons.prems(2) by simp
    have lr: "\<not> logger w (calls w) m"
        "logger_returns (logger w) (calls w @ [m]) (map (pickup_message w) (zip rest q))"
      using Cons.prems(3) by (simp_all add: Cons m_def pickup_message_def)
    have log: "call_logger m (bound b r w) = (Inr (), w1)"
      using lr(1) by (simp add: call_logger_def bound_def w1_def)
    have q1: "orders (orderQueue w1) = q"
      using dequeue_Cons [OF Cons, of "ostore w"] by (simp add: w1_def bound_def)
    have pm: "pickup_message w1 = pickup_message w"
      using pickup_message_bound [of b r w] by (simp add: w1_def pickup_message_def)
    have "distinct rest" using Cons.prems(1) by simp
    moreover have "\<forall>c \<in> set rest. bstatus (bstore w1 c) = IDLE"
      using Cons.prems(1,2) by (auto simp: w1_def bound_def)
    moreover have "logger_returns (logger w1) (calls w1)
        (map (pickup_message w1) (zip rest (orders (orderQueue w1))))"
      using lr(2) by (simp add: q1 pm) (simp add: w1_def bound_def)
    ultimately have "assignLoop rest w1 = (Inr (), bind_all (zip rest (orders (orderQueue w1))) w1)"
      by (rule Cons.IH)
    then show ?thesis
      unfolding assignLoop_bound [OF Cons idle] m_def [symmetric]
      by (simp add: andThen_def log q1 Cons) (simp add: w1_def m_def)
  qed
qed

lemma assign_bind_all:
  assumes "distinct (bots w)" "logger_returns (logger w) (calls w) (pass_messages w)"
  shows "assignOrdersToIdleBots w = (Inr (), bind_all (bindings w) w)"
proof -
  let ?idle = "filter (\<lambda>b. isIdle (bstore w b)) (bots w)"
  have loop: "assignLoop ?idle w = (Inr (), bind_all (zip ?idle (orders (orderQueue w))) w)"
    using assms
    by (intro assignLoop_bind_all) (simp_all add: isIdle_def pass_messages_def bindings_def getAll_def)
  show ?thesis
  proof (cases "?idle = [] \<or> orders (orderQueue w) = []")
    case True
    then have "bind_all (zip ?idle (orders (orderQueue w))) w = w" by auto
    with True show ?thesis
      by (simp add: assignOrdersToIdleBots_def Let_def isEmpty_def bindings_def getAll_def)
  next
    case False
    with loop show ?thesis
      by (simp add: assignOrdersToIdleBots_def Let_def isEmpty_def bindings_def getAll_def)
  qed
qed

text \<open>What a list of bindings leaves alone.\<close>

lemma bind_all_same:
  "bots (bind_all zs w) = bots w"
  "bnew (bind_all zs w) = bnew w"
  "onew (bind_all zs w) = onew w"
  "allOrders (bind_all zs w) = allOrders w"
  "completedOrders (bind_all zs w) = completedOrders w"
  "logger (bind_all zs w) = logger w"
  "nextOrderNumber (bind_all zs w) = nextOrderNumber w"
  "nextBotId (bind_all zs w) = nextBotId w"
  "tnew (bind_all zs w) = tnew w + length zs"
  by (induction zs w rule: bind_all.induct; simp add: bound_def)+

lemma bind_all_bstore:
  "b \<notin> fst ` set zs \<Longrightarrow> bstore (bind_all zs w) b = bstore w b"
  by (induction zs w rule: bind_all.induct) (auto simp: bound_def)

lemma bind_all_botId: "botId (bstore (bind_all zs w) b) = botId (bstore w b)"
  by (induction zs w rule: bind_all.induct) (auto simp: bound_def)


lemma bind_all_order_fields:
  "otype (ostore (bind_all zs w) r) = otype (ostore w r)"
  "orderNumber (ostore (bind_all zs w) r) = orderNumber (ostore w r)"
  by (induction zs w rule: bind_all.induct; simp add: bound_def)+

lemma bind_all_processing:
  "ostatus (ostore w r) = PROCESSING \<Longrightarrow> ostatus (ostore (bind_all zs w) r) = PROCESSING"
  by (induction zs w rule: bind_all.induct) (auto simp: bound_def)

lemma bind_all_timers:
  "t < tnew w \<Longrightarrow> timers (bind_all zs w) t = timers w t"
  by (induction zs w rule: bind_all.induct) (auto simp: bound_def)

lemma orders_dequeue: "orders (snd (dequeue h q)) = tl (orders q)"
  by (cases "orders q") (simp_all add: dequeue_def)

lemma bind_all_queue:
  "orders (orderQueue (bind_all zs w)) = drop (length zs) (orders (orderQueue w))"
proof (induction zs w rule: bind_all.induct)
  case (1 w)
  show ?case by simp
next
  case (2 b r rest w)
  then show ?case by (simp add: bound_def orders_dequeue drop_Suc)
qed


lemma bind_all_bound:
  "distinct (map fst zs) \<Longrightarrow> (b, r) \<in> set zs \<Longrightarrow>
     bstatus (bstore (bind_all zs w) b) = BOT_PROCESSING \<and>
     currentOrder (bstore (bind_all zs w) b) = Some r \<and>
     ostatus (ostore (bind_all zs w) r) = PROCESSING \<and>
     (\<exists>t \<ge> tnew w. processingTimeout (bstore (bind_all zs w) b) = Some t \<and>
        timers (bind_all zs w) t = Some (b, Some (OnOrderCompleted b)))"
proof (induction zs w rule: bind_all.induct)
  case (1 w)
  then show ?case by simp
next
  case (2 c x rest w)
  define w1 where "w1 = (bound c x w)\<lparr>calls := calls w @
          [BotPickedUp (botId (bstore w c)) (otype (ostore w x)) (orderNumber (ostore w x))
             PROCESSING]\<rparr>"
  have step: "bind_all ((c, x) # rest) w = bind_all rest w1" by (simp add: w1_def)
  have d: "distinct (map fst rest)" "c \<notin> fst ` set rest" using 2(2) by auto
  show ?case
  proof (cases "(b, r) \<in> set rest")
    case True
    from "2.IH" [OF d(1) True, folded w1_def]
    show ?thesis unfolding step by (auto simp: w1_def bound_def)
  next
    case False
    with 2(3) have eq: "b = c" "r = x" by auto
    have "bstore (bind_all rest w1) c = bstore w1 c"
      by (rule bind_all_bstore [OF d(2)])
    moreover have "timers (bind_all rest w1) (tnew w) = timers w1 (tnew w)"
      by (rule bind_all_timers) (simp add: w1_def bound_def)
    moreover have "ostatus (ostore (bind_all rest w1) x) = PROCESSING"
      by (rule bind_all_processing) (simp add: w1_def bound_def)
    ultimately show ?thesis
      unfolding step eq by (auto simp: w1_def bound_def)
  qed
qed

lemma distinct_bindings: "distinct (bots w) \<Longrightarrow> distinct (map fst (bindings w))"
  by (simp add: bindings_def map_fst_zip_take)








lemma queue_abs_agree:
  assumes "queue_abs h q s" "\<And>r. r \<in> set (orders q) \<Longrightarrow> isVIP (h' r) = isVIP (h r)"
  shows "queue_abs h' q s"
  using assms by (auto simp: queue_abs_def)

lemma queue_abs_partition:
  assumes "queue_abs h q s"
  shows "s = \<lparr>vipSeq = filter (\<lambda>r. isVIP (h r)) (orders q),
              normalSeq = filter (\<lambda>r. \<not> isVIP (h r)) (orders q)\<rparr>"
proof -
  have "filter (\<lambda>r. isVIP (h r)) (orders q) = vipSeq s"
    using assms by (auto simp: queue_abs_def filter_id_conv filter_empty_conv)
  moreover have "filter (\<lambda>r. \<not> isVIP (h r)) (orders q) = normalSeq s"
    using assms by (auto simp: queue_abs_def filter_id_conv filter_empty_conv)
  ultimately show ?thesis by simp
qed

lemma queue_invI:
  assumes "queue_abs h q s" "ostore w = h" "orderQueue w = q"
  shows "queue_inv w"
  using assms queue_abs_partition [of "ostore w" "orderQueue w" s] by (simp add: queue_inv_def)

lemma queue_inv_calls: "queue_inv (w\<lparr>calls := c\<rparr>) = queue_inv w"
  by (simp add: queue_inv_def)

lemma queue_inv_created:
  assumes o: "orders_inv w" and q: "queue_inv w"
  shows "queue_inv (created ty w)"
proof -
  let ?h = "(ostore w)(onew w := Order (nextOrderNumber w) ty)"
  have "onew w \<notin> set (orders (orderQueue w))" using orders_invD(4) [OF o, of "onew w"] by simp
  then have "queue_abs ?h (orderQueue w)
      \<lparr>vipSeq = filter (\<lambda>r. isVIP (ostore w r)) (orders (orderQueue w)),
       normalSeq = filter (\<lambda>r. \<not> isVIP (ostore w r)) (orders (orderQueue w))\<rparr>"
    by (intro queue_abs_agree [OF q [unfolded queue_inv_def]]) auto
  from queue_abs_enqueue [OF this, of "onew w"] show ?thesis
    by (rule queue_invI) (simp_all add: created_def)
qed

lemma queue_inv_bound:
  assumes q: "queue_inv w"
  shows "queue_inv (bound b r w)"
proof -
  from queue_abs_dequeue [OF q [unfolded queue_inv_def]]
  have "queue_abs ((ostore w)(r := (ostore w r)\<lparr>ostatus := PROCESSING\<rparr>))
          (snd (dequeue (ostore w) (orderQueue w)))
          (two_seq_apply (ostore w) Dequeue
            \<lparr>vipSeq = filter (\<lambda>r. isVIP (ostore w r)) (orders (orderQueue w)),
             normalSeq = filter (\<lambda>r. \<not> isVIP (ostore w r)) (orders (orderQueue w))\<rparr>)"
    by (rule queue_abs_agree) (simp add: isVIP_def)
  then show ?thesis
    by (rule queue_invI) (simp_all add: bound_def)
qed

lemma queue_inv_preempted:
  assumes q: "queue_inv w"
  shows "queue_inv (preempted t r w)"
proof -
  let ?h = "(ostore w)(r := (ostore w r)\<lparr>ostatus := PENDING\<rparr>)"
  have "queue_abs ?h (orderQueue w)
      \<lparr>vipSeq = filter (\<lambda>r. isVIP (ostore w r)) (orders (orderQueue w)),
       normalSeq = filter (\<lambda>r. \<not> isVIP (ostore w r)) (orders (orderQueue w))\<rparr>"
    by (rule queue_abs_agree [OF q [unfolded queue_inv_def]]) (simp add: isVIP_def)
  from queue_abs_enqueue [OF this, of r] show ?thesis
    by (rule queue_invI) (simp_all add: preempted_def)
qed

lemma queue_inv_finished:
  assumes q: "queue_inv w"
  shows "queue_inv (finished b t r w)"
proof -
  have "queue_abs ((ostore w)(r := (ostore w r)\<lparr>ostatus := COMPLETE\<rparr>)) (orderQueue w)
      \<lparr>vipSeq = filter (\<lambda>r. isVIP (ostore w r)) (orders (orderQueue w)),
       normalSeq = filter (\<lambda>r. \<not> isVIP (ostore w r)) (orders (orderQueue w))\<rparr>"
    by (rule queue_abs_agree [OF q [unfolded queue_inv_def]]) (simp add: isVIP_def)
  then show ?thesis
    by (rule queue_invI) (simp_all add: finished_def)
qed

lemma queue_inv_added: "queue_inv w \<Longrightarrow> queue_inv (added w)"
  by (simp add: queue_inv_def added_def)

lemma queue_inv_popped: "queue_inv w \<Longrightarrow> queue_inv (popped w)"
  by (simp add: queue_inv_def popped_def)

lemma stable_queue: "stable (\<lambda>w. consistent w \<and> queue_inv w)"
proof (rule stableI)
  show "loop_stable (\<lambda>w. consistent w \<and> queue_inv w)"
    by (rule loop_stableI) (simp_all add: consistent_bound queue_inv_bound queue_inv_calls)
qed (simp_all add: consistent_created consistent_added consistent_popped consistent_preempted
      consistent_finished queue_inv_created consistentD(3) queue_inv_added queue_inv_popped
      queue_inv_preempted queue_inv_finished)

lemma queue_inv_new: "queue_inv (newController lg)"
  by (simp add: queue_inv_def newController_def queue_abs_def newOrderQueue_def)

lemma queue_reachable: "queue_inv (run es (newController lg))"
  using stable_run [OF stable_queue, of "newController lg" es] consistent_new queue_inv_new
  by simp

lemma example_preempt_run_facts:
  "bots example_preempt_run = [0, 1]"
  "bstore example_preempt_run 0 =
     \<lparr>botId = 1, bstatus = IDLE, currentOrder = None, processingTimeout = None\<rparr>"
  "bstore example_preempt_run 1 =
     \<lparr>botId = 2, bstatus = BOT_PROCESSING, currentOrder = Some 1, processingTimeout = Some 1\<rparr>"
  "ostatus (ostore example_preempt_run 1) = PROCESSING"
  "orders (orderQueue example_preempt_run) = []"
  "fst (removeBot example_preempt_run) = Inr (Some 1)"
  "bots (snd (removeBot example_preempt_run)) = [0]"
  "ostatus (ostore (snd (removeBot example_preempt_run)) 1) = PROCESSING"
  "currentOrder (bstore (snd (removeBot example_preempt_run)) 0) = Some 1"
  "orders (orderQueue (snd (removeBot example_preempt_run))) = []"
  unfolding example_preempt_run_def by (simp_all add: eval_defs)

theorem removeBot_pending_count_counterexample:
  "bots example_preempt_run \<noteq> []
   \<and> bstatus (bstore example_preempt_run (last (bots example_preempt_run))) = BOT_PROCESSING
   \<and> currentOrder (bstore example_preempt_run (last (bots example_preempt_run))) = Some 1
   \<and> fst (removeBot example_preempt_run) = Inr (Some 1)
   \<and> ostatus (ostore (snd (removeBot example_preempt_run)) 1) \<noteq> PENDING
   \<and> queue_size (orderQueue (snd (removeBot example_preempt_run))) \<noteq>
       queue_size (orderQueue example_preempt_run) + 1"
  unfolding example_preempt_run_def by (simp add: eval_defs)

lemma enqueue_agree: "isVIP (h' r) = isVIP (h r) \<Longrightarrow> enqueue h' q r = enqueue h q r"
  by (simp add: enqueue_def)

lemma removeBot_busy_keeps:
  assumes "loop_stable Q" "bots w \<noteq> []"
    and "processingTimeout (bstore w (last (bots w))) = Some h"
    and "currentOrder (bstore w (last (bots w))) = Some t"
    and "Q (preempted h t w)"
  shows "Q (snd (removeBot w))"
  unfolding removeBot_preempted [OF assms(2-4)]
  by (rule loop_stable_logged [OF assms(1,5)]) (rule loop_stable_assign_then [OF assms(1)])

lemma loop_stable_pool_timer:
  "loop_stable (\<lambda>v. consistent v \<and> bots v = B \<and> timers v h = None \<and> h < tnew v)"
  by (rule loop_stableI) (simp_all add: consistent_bound, auto simp: bound_def)

lemma loop_stable_all_busy:
  "loop_stable (\<lambda>v. consistent v \<and> (\<forall>c \<in> set (bots v). bstatus (bstore v c) \<noteq> IDLE) \<and>
      ostore v = hp \<and> orderQueue v = q)"
  by (rule loop_stableI) (auto simp: consistent_bound)

lemma holder_busy:
  assumes ok: "consistent w" and cur: "currentOrder (bstore w b) = Some t"
  shows "bstatus (bstore w b) = BOT_PROCESSING" "\<exists>h. processingTimeout (bstore w b) = Some h"
proof -
  note B = bots_invD [OF consistentD(1) [OF ok]]
  note k = bot_okD [OF B(3) [of b]]
  from k(1) cur have "bstatus (bstore w b) \<noteq> IDLE" by simp
  then show "bstatus (bstore w b) = BOT_PROCESSING" by (cases "bstatus (bstore w b)") simp_all
  from k(2) cur have "processingTimeout (bstore w b) \<noteq> None" by simp
  then show "\<exists>h. processingTimeout (bstore w b) = Some h" by (cases "processingTimeout (bstore w b)") simp_all
qed

lemma removeBot_busy_pool:
  assumes ok: "consistent w" and ne: "bots w \<noteq> []"
    and h: "processingTimeout (bstore w (last (bots w))) = Some h"
    and cur: "currentOrder (bstore w (last (bots w))) = Some t"
  shows "bots (snd (removeBot w)) = butlast (bots w)" "timers (snd (removeBot w)) h = None"
proof -
  note inv = consistentD [OF ok]
  note tm = timers_invD2 [OF inv(2) h]
  have lt: "h < tnew w" by (rule timers_invD1(4) [OF inv(2) tm])
  have start: "consistent (preempted h t w) \<and> bots (preempted h t w) = butlast (bots w) \<and>
      timers (preempted h t w) h = None \<and> h < tnew (preempted h t w)"
  proof (intro conjI)
    show "consistent (preempted h t w)" by (rule consistent_preempted [OF ok ne h cur])
    show "bots (preempted h t w) = butlast (bots w)" by (simp add: preempted_def)
    show "timers (preempted h t w) h = None" by (simp add: preempted_def)
    show "h < tnew (preempted h t w)" using lt by (simp add: preempted_def)
  qed
  have "consistent (snd (removeBot w)) \<and> bots (snd (removeBot w)) = butlast (bots w) \<and>
      timers (snd (removeBot w)) h = None \<and> h < tnew (snd (removeBot w))"
    by (rule removeBot_busy_keeps [OF loop_stable_pool_timer ne h cur]) (rule start)
  then show "bots (snd (removeBot w)) = butlast (bots w)" "timers (snd (removeBot w)) h = None"
    by simp_all
qed

lemma last_notin_butlast: "distinct xs \<Longrightarrow> xs \<noteq> [] \<Longrightarrow> last xs \<notin> set (butlast xs)"
proof -
  assume d: "distinct xs" and ne: "xs \<noteq> []"
  then have "distinct (butlast xs @ [last xs])" by simp
  then show ?thesis by simp
qed

lemma removeBot_busy_requeues:
  assumes ok: "consistent w" and ne: "bots w \<noteq> []"
    and h: "processingTimeout (bstore w (last (bots w))) = Some h"
    and cur: "currentOrder (bstore w (last (bots w))) = Some t"
    and busy: "\<forall>c \<in> set (butlast (bots w)). \<not> isIdle (bstore w c)"
  shows "ostore (snd (removeBot w)) = (ostore w)(t := (ostore w t)\<lparr>ostatus := PENDING\<rparr>)"
    "orderQueue (snd (removeBot w)) = enqueue (ostore w) (orderQueue w) t"
proof -
  note B = bots_invD [OF consistentD(1) [OF ok]]
  have nl: "last (bots w) \<notin> set (butlast (bots w))" by (rule last_notin_butlast [OF B(1) ne])
  have nobody: "bstatus (bstore (preempted h t w) c) \<noteq> IDLE" if "c \<in> set (bots (preempted h t w))" for c
  proof -
    from that have c: "c \<in> set (butlast (bots w))" by (simp add: preempted_def)
    with nl have "c \<noteq> last (bots w)" by blast
    moreover from busy c have "bstatus (bstore w c) \<noteq> IDLE" by (simp add: isIdle_def)
    ultimately show ?thesis by (simp add: preempted_def)
  qed
  have start: "consistent (preempted h t w) \<and>
      (\<forall>c \<in> set (bots (preempted h t w)). bstatus (bstore (preempted h t w) c) \<noteq> IDLE) \<and>
      ostore (preempted h t w) = ostore (preempted h t w) \<and>
      orderQueue (preempted h t w) = orderQueue (preempted h t w)"
    using consistent_preempted [OF ok ne h cur] nobody by blast
  have "consistent (snd (removeBot w)) \<and>
      (\<forall>c \<in> set (bots (snd (removeBot w))). bstatus (bstore (snd (removeBot w)) c) \<noteq> IDLE) \<and>
      ostore (snd (removeBot w)) = ostore (preempted h t w) \<and>
      orderQueue (snd (removeBot w)) = orderQueue (preempted h t w)"
    by (rule removeBot_busy_keeps [OF loop_stable_all_busy
            [of "ostore (preempted h t w)" "orderQueue (preempted h t w)"] ne h cur])
       (rule start)
  then have o: "ostore (snd (removeBot w)) = ostore (preempted h t w)"
    and q: "orderQueue (snd (removeBot w)) = orderQueue (preempted h t w)" by simp_all
  show "ostore (snd (removeBot w)) = (ostore w)(t := (ostore w t)\<lparr>ostatus := PENDING\<rparr>)"
    unfolding o by (simp add: preempted_def)
  have "orderQueue (preempted h t w) =
      enqueue ((ostore w)(t := (ostore w t)\<lparr>ostatus := PENDING\<rparr>)) (orderQueue w) t"
    by (simp add: preempted_def)
  also have "\<dots> = enqueue (ostore w) (orderQueue w) t"
    by (rule enqueue_agree) (simp add: isVIP_def)
  finally show "orderQueue (snd (removeBot w)) = enqueue (ostore w) (orderQueue w) t"
    unfolding q .
qed

lemma enqueue_place:
  assumes qi: "queue_inv w"
  shows "getAll (enqueue (ostore w) (orderQueue w) t) =
                (if isVIP (ostore w t)
                 then filter (\<lambda>r. isVIP (ostore w r)) (getPendingOrders w) @
                      t # filter (\<lambda>r. \<not> isVIP (ostore w r)) (getPendingOrders w)
                 else getPendingOrders w @ [t])"
proof -
  let ?s = "\<lparr>vipSeq = filter (\<lambda>r. isVIP (ostore w r)) (orders (orderQueue w)),
        normalSeq = filter (\<lambda>r. \<not> isVIP (ostore w r)) (orders (orderQueue w))\<rparr>"
  from qi have a: "queue_abs (ostore w) (orderQueue w) ?s" by (simp add: queue_inv_def)
  have all: "orders (orderQueue w) = vipSeq ?s @ normalSeq ?s"
    using queue_abs_getAll [OF a] by (simp add: getAll_def)
  have "getAll (enqueue (ostore w) (orderQueue w) t) =
      vipSeq (two_seq_apply (ostore w) (Enqueue t) ?s) @
      normalSeq (two_seq_apply (ostore w) (Enqueue t) ?s)"
    by (rule queue_abs_getAll [OF queue_abs_enqueue [OF a]])
  also have "\<dots> = (if isVIP (ostore w t)
                 then vipSeq ?s @ t # normalSeq ?s
                 else (vipSeq ?s @ normalSeq ?s) @ [t])"
    by simp
  finally show ?thesis
    unfolding all [symmetric] by (simp add: getPendingOrders_def getAll_def)
qed

text \<open>Claim C2, as amended. In every state a controller reaches whose pool is not empty
  and whose most recently added bot holds an order \<open>t\<close> (its status is then \<open>PROCESSING\<close>),
  \<open>removeBot\<close> removes exactly that bot (the pool is the old one without its last element),
  cancels its pending timeout, and, when none of the remaining bots is idle, leaves \<open>t\<close>
  \<open>PENDING\<close> in the queue at the place a fresh \<open>enqueue\<close> gives it (after the queued VIP
  orders if \<open>t\<close> is VIP, at the end otherwise, whatever its earlier place), so that the
  pending count is one more than before.\<close>

theorem removeBot_returns_order_to_queue:
  fixes lg :: "message list \<Rightarrow> message \<Rightarrow> bool" and es :: "event list"
  defines "w \<equiv> run es (newController lg)"
  defines "w' \<equiv> snd (removeBot w)"
  assumes ne: "bots w \<noteq> []" and cur: "currentOrder (bstore w (last (bots w))) = Some t"
  shows "bstatus (bstore w (last (bots w))) = BOT_PROCESSING
       \<and> bots w' = butlast (bots w) \<and> length (bots w') + 1 = length (bots w)
       \<and> (\<exists>h. processingTimeout (bstore w (last (bots w))) = Some h \<and>
              timers w h = Some (last (bots w), Some (OnOrderCompleted (last (bots w)))) \<and>
              timers w' h = None)
       \<and> ((\<forall>c \<in> set (butlast (bots w)). \<not> isIdle (bstore w c)) \<longrightarrow>
              ostatus (ostore w' t) = PENDING \<and>
              orderQueue w' = enqueue (ostore w) (orderQueue w) t \<and>
              queue_size (orderQueue w') = queue_size (orderQueue w) + 1 \<and>
              getPendingOrders w' =
                (if isVIP (ostore w t)
                 then filter (\<lambda>r. isVIP (ostore w r)) (getPendingOrders w) @
                      t # filter (\<lambda>r. \<not> isVIP (ostore w r)) (getPendingOrders w)
                 else getPendingOrders w @ [t]))"
proof -
  let ?b = "last (bots w)"
  have ok: "consistent w" unfolding w_def by (rule consistent_reachable)
  have qi: "queue_inv w" unfolding w_def by (rule queue_reachable)
  have st: "bstatus (bstore w ?b) = BOT_PROCESSING" by (rule holder_busy(1) [OF ok cur])
  from holder_busy(2) [OF ok cur]
  obtain h where h: "processingTimeout (bstore w ?b) = Some h" ..
  have tm: "timers w h = Some (?b, Some (OnOrderCompleted ?b))"
    by (rule timers_invD2 [OF consistentD(2) [OF ok] h])
  have pool: "bots w' = butlast (bots w)"
    unfolding w'_def by (rule removeBot_busy_pool(1) [OF ok ne h cur])
  have gone: "timers w' h = None"
    unfolding w'_def by (rule removeBot_busy_pool(2) [OF ok ne h cur])
  have len: "length (bots w') + 1 = length (bots w)" using ne by (simp add: pool)
  have 4: "\<exists>h. processingTimeout (bstore w ?b) = Some h \<and>
              timers w h = Some (?b, Some (OnOrderCompleted ?b)) \<and> timers w' h = None"
    using h tm gone by blast
  have 5: "ostatus (ostore w' t) = PENDING \<and>
              orderQueue w' = enqueue (ostore w) (orderQueue w) t \<and>
              queue_size (orderQueue w') = queue_size (orderQueue w) + 1 \<and>
              getPendingOrders w' =
                (if isVIP (ostore w t)
                 then filter (\<lambda>r. isVIP (ostore w r)) (getPendingOrders w) @
                      t # filter (\<lambda>r. \<not> isVIP (ostore w r)) (getPendingOrders w)
                 else getPendingOrders w @ [t])"
    if busy: "\<forall>c \<in> set (butlast (bots w)). \<not> isIdle (bstore w c)"
  proof -
    have o: "ostore w' = (ostore w)(t := (ostore w t)\<lparr>ostatus := PENDING\<rparr>)"
      unfolding w'_def by (rule removeBot_busy_requeues(1) [OF ok ne h cur busy])
    have q: "orderQueue w' = enqueue (ostore w) (orderQueue w) t"
      unfolding w'_def by (rule removeBot_busy_requeues(2) [OF ok ne h cur busy])
    have a: "ostatus (ostore w' t) = PENDING" unfolding o by simp
    have size: "queue_size (orderQueue w') = queue_size (orderQueue w) + 1"
      unfolding q by (simp add: queue_size_def enqueue_def splice_insert_def Let_def)
    have place: "getPendingOrders w' =
                (if isVIP (ostore w t)
                 then filter (\<lambda>r. isVIP (ostore w r)) (getPendingOrders w) @
                      t # filter (\<lambda>r. \<not> isVIP (ostore w r)) (getPendingOrders w)
                 else getPendingOrders w @ [t])"
      unfolding getPendingOrders_def [of w'] q by (rule enqueue_place [OF qi])
    show ?thesis by (intro conjI a q size place)
  qed
  show ?thesis
    by (intro conjI impI st pool len 4 5)
qed

lemma example_queue_run_facts:
  "bots example_queue_run = [0, 1]"
  "currentOrder (bstore example_queue_run (Suc 0)) = Some (Suc 0)"
  "bstatus (bstore example_queue_run 0) = BOT_PROCESSING"
  "getPendingOrders example_queue_run = [2, 3]"
  "isVIP (ostore example_queue_run (Suc 0))"
  "isVIP (ostore example_queue_run 2)"
  "\<not> isVIP (ostore example_queue_run 3)"
  "queue_size (orderQueue example_queue_run) = 2"
  "queue_size (enqueue (ostore example_queue_run) (orderQueue example_queue_run) (Suc 0)) = 3"
  unfolding example_queue_run_def by (simp_all add: eval_defs)

theorem removeBot_returns_order_to_queue_witness:
  "bots example_queue_run = [0, 1]
   \<and> currentOrder (bstore example_queue_run 1) = Some 1
   \<and> \<not> isIdle (bstore example_queue_run 0)
   \<and> getPendingOrders example_queue_run = [2, 3]
   \<and> bots (snd (removeBot example_queue_run)) = [0]
   \<and> ostatus (ostore (snd (removeBot example_queue_run)) 1) = PENDING
   \<and> getPendingOrders (snd (removeBot example_queue_run)) = [2, 1, 3]
   \<and> queue_size (orderQueue (snd (removeBot example_queue_run))) = 3"
  using removeBot_returns_order_to_queue
    [where es = "[AddBot, AddBot, CreateVIPOrder, CreateVIPOrder, CreateVIPOrder,
        CreateNormalOrder]" and lg = silent and t = 1, folded example_queue_run_def]
  by (simp add: example_queue_run_facts isIdle_def)

lemma retiredD:
  assumes "retired b h x v"
  shows "consistent v" "b \<notin> set (bots v)" "b < bnew v" "timers v h = None" "h < tnew v"
    "bstore v b = x"
  using assms by (simp_all add: retired_def)

lemma retiredI:
  assumes "consistent v" "b \<notin> set (bots v)" "b < bnew v" "timers v h = None" "h < tnew v"
    "bstore v b = x"
  shows "retired b h x v"
  using assms by (simp add: retired_def)

lemma loop_stable_retired: "loop_stable (retired b h x)"
proof (rule loop_stableI)
  fix w assume "retired b h x w"
  then show "consistent w" by (rule retiredD(1))
next
  fix w c assume "retired b h x w"
  then show "retired b h x (w\<lparr>calls := c\<rparr>)" by (simp add: retired_def)
next
  fix w c r q
  assume r: "retired b h x w" and c: "c \<in> set (bots w)" and idle: "bstatus (bstore w c) = IDLE"
    and q: "orders (orderQueue w) = r # q"
  note d = retiredD [OF r]
  from c d(2) have ne: "c \<noteq> b" by blast
  show "retired b h x (bound c r w)"
  proof (rule retiredI)
    show "consistent (bound c r w)" by (rule consistent_bound [OF d(1) c idle q])
    show "b \<notin> set (bots (bound c r w))" using d(2) by (simp add: bound_def)
    show "b < bnew (bound c r w)" using d(3) by (simp add: bound_def)
    show "timers (bound c r w) h = None" using d(4,5) by (simp add: bound_def)
    show "h < tnew (bound c r w)" using d(5) by (simp add: bound_def)
    show "bstore (bound c r w) b = x" using d(6) ne by (simp add: bound_def)
  qed
qed

lemma stable_retired: "stable (retired b h x)"
proof (rule stableI [OF loop_stable_retired])
  fix w ty assume r: "retired b h x w"
  note d = retiredD [OF r]
  show "retired b h x (created ty w)"
  proof (rule retiredI)
    show "consistent (created ty w)" by (rule consistent_created [OF d(1)])
  qed (use d in \<open>simp_all add: created_def\<close>)
next
  fix w assume r: "retired b h x w"
  note d = retiredD [OF r]
  show "retired b h x (added w)"
  proof (rule retiredI)
    show "consistent (added w)" by (rule consistent_added [OF d(1)])
  qed (use d in \<open>simp_all add: added_def\<close>)
next
  fix w assume r: "retired b h x w" and ne: "bots w \<noteq> []"
    and n: "processingTimeout (bstore w (last (bots w))) = None"
    and c: "currentOrder (bstore w (last (bots w))) = None"
  note d = retiredD [OF r]
  have nb: "b \<notin> set (butlast (bots w))" using d(2) by (blast dest: in_set_butlastD)
  show "retired b h x (popped w)"
  proof (rule retiredI)
    show "consistent (popped w)" by (rule consistent_popped [OF d(1) ne n c])
    show "b \<notin> set (bots (popped w))" using nb by (simp add: popped_def)
  qed (use d in \<open>simp_all add: popped_def\<close>)
next
  fix w t r assume rt: "retired b h x w" and ne: "bots w \<noteq> []"
    and n: "processingTimeout (bstore w (last (bots w))) = Some t"
    and c: "currentOrder (bstore w (last (bots w))) = Some r"
  note d = retiredD [OF rt]
  have nb: "b \<notin> set (butlast (bots w))" using d(2) by (blast dest: in_set_butlastD)
  from ne have "last (bots w) \<in> set (bots w)" by simp
  with d(2) have nl: "last (bots w) \<noteq> b" by blast
  show "retired b h x (preempted t r w)"
  proof (rule retiredI)
    show "consistent (preempted t r w)" by (rule consistent_preempted [OF d(1) ne n c])
    show "b \<notin> set (bots (preempted t r w))" using nb by (simp add: preempted_def)
    show "bstore (preempted t r w) b = x" using d(6) nl by (simp add: preempted_def)
  qed (use d in \<open>simp_all add: preempted_def\<close>)
next
  fix w c t r assume rt: "retired b h x w"
    and tm: "timers w t = Some (c, Some (OnOrderCompleted c))"
    and n: "processingTimeout (bstore w c) = Some t"
    and cur: "currentOrder (bstore w c) = Some r"
  note d = retiredD [OF rt]
  have "c \<in> set (bots w)" by (rule timers_invD1(1) [OF consistentD(2) [OF d(1)] tm])
  with d(2) have nc: "c \<noteq> b" by blast
  show "retired b h x (finished c t r w)"
  proof (rule retiredI)
    show "consistent (finished c t r w)" by (rule consistent_finished [OF d(1) n cur])
    show "bstore (finished c t r w) b = x" using d(6) nc by (simp add: finished_def)
  qed (use d in \<open>simp_all add: finished_def\<close>)
qed

lemma loop_stable_not_complete:
  "loop_stable (\<lambda>v. consistent v \<and> ostatus (ostore v t) \<noteq> COMPLETE)"
  by (rule loop_stableI) (simp_all add: consistent_bound, simp add: bound_def)

lemma created_not_complete:
  "ostatus (ostore w t) \<noteq> COMPLETE \<Longrightarrow> ostatus (ostore (created ty w) t) \<noteq> COMPLETE"
  by (simp add: created_def Order_def)

lemma completed_by_holder:
  assumes ok: "consistent v" and before: "ostatus (ostore v t) \<noteq> COMPLETE"
    and after: "ostatus (ostore (step e v) t) = COMPLETE"
  shows "\<exists>x c. e = TimerFires x \<and> timers v x = Some (c, Some (OnOrderCompleted c)) \<and>
           c \<in> set (bots v) \<and> currentOrder (bstore v c) = Some t"
proof -
  let ?Q = "\<lambda>v. consistent v \<and> ostatus (ostore v t) \<noteq> COMPLETE"
  note ls = loop_stable_not_complete [of t]
  have q: "?Q v" using ok before by simp
  show ?thesis
  proof (cases e)
    case CreateNormalOrder
    have "?Q (snd (createOrder NORMAL v))"
      by (rule loop_stable_createOrder [OF ls])
         (simp add: consistent_created [OF ok] created_not_complete [OF before])
    with after CreateNormalOrder show ?thesis by (simp add: createNormalOrder_def)
  next
    case CreateVIPOrder
    have "?Q (snd (createOrder VIP v))"
      by (rule loop_stable_createOrder [OF ls])
         (simp add: consistent_created [OF ok] created_not_complete [OF before])
    with after CreateVIPOrder show ?thesis by (simp add: createVIPOrder_def)
  next
    case AddBot
    have "?Q (snd (addBot v))"
      by (rule loop_stable_addBot [OF ls])
         (simp add: consistent_added [OF ok], simp add: added_def before)
    with after AddBot show ?thesis by simp
  next
    case RemoveBot
    have "?Q (snd (removeBot v))"
    proof (rule loop_stable_removeBot [OF ls ok])
      show "?Q v" by (rule q)
    next
      assume "bots v \<noteq> []" "processingTimeout (bstore v (last (bots v))) = None"
        "currentOrder (bstore v (last (bots v))) = None"
      then have "consistent (popped v)" by (rule consistent_popped [OF ok])
      then show "?Q (popped v)" using before by (simp add: popped_def)
    next
      fix h r
      assume "bots v \<noteq> []" "processingTimeout (bstore v (last (bots v))) = Some h"
        "currentOrder (bstore v (last (bots v))) = Some r"
      then have "consistent (preempted h r v)" by (rule consistent_preempted [OF ok])
      moreover have "ostatus (ostore (preempted h r v) t) \<noteq> COMPLETE"
        using before by (simp add: preempted_def)
      ultimately show "?Q (preempted h r v)" by simp
    qed
    with after RemoveBot show ?thesis by simp
  next
    case (TimerFires x)
    from ok show ?thesis
    proof (cases rule: timer_cases [where t = x])
      case 1
      then have "step e v = v" using TimerFires by (simp add: timerFires_idle)
      with before after show ?thesis by simp
    next
      case (2 c r)
      have c: "c \<in> set (bots v)" by (rule timers_invD1(1) [OF consistentD(2) [OF ok] 2(1)])
      show ?thesis
      proof (cases "r = t")
        case True
        with 2 c TimerFires show ?thesis by blast
      next
        case False
        have "?Q (snd (timerFires x v))"
        proof (rule loop_stable_timerFires [OF ls ok])
          assume "timers v x = None"
          with 2(1) show "?Q v" by simp
        next
          fix c' r'
          assume a: "timers v x = Some (c', Some (OnOrderCompleted c'))"
            "processingTimeout (bstore v c') = Some x" "currentOrder (bstore v c') = Some r'"
          from a(1) 2(1) have "c' = c" by simp
          with a(3) 2(3) have r': "r' = r" by simp
          have "consistent (finished c' x r' v)" by (rule consistent_finished [OF ok a(2,3)])
          moreover have "ostatus (ostore (finished c' x r' v) t) \<noteq> COMPLETE"
            using before False r' by (simp add: finished_def)
          ultimately show "?Q (finished c' x r' v)" by simp
        qed
        with after TimerFires show ?thesis by simp
      qed
    qed
  qed
qed

lemma removeBot_retires:
  assumes ok: "consistent w" and ne: "bots w \<noteq> []"
    and h: "processingTimeout (bstore w (last (bots w))) = Some h"
    and cur: "currentOrder (bstore w (last (bots w))) = Some t"
  shows "retired (last (bots w)) h
      ((bstore w (last (bots w)))\<lparr>processingTimeout := None, currentOrder := None,
         bstatus := IDLE\<rparr>) (snd (removeBot w))"
proof (rule removeBot_busy_keeps [OF loop_stable_retired ne h cur], rule retiredI)
  note inv = consistentD [OF ok]
  note B = bots_invD [OF inv(1)]
  note tm = timers_invD2 [OF inv(2) h]
  from ne have l: "last (bots w) \<in> set (bots w)" by simp
  show "consistent (preempted h t w)" by (rule consistent_preempted [OF ok ne h cur])
  show "last (bots w) \<notin> set (bots (preempted h t w))"
    using last_notin_butlast [OF B(1) ne] by (simp add: preempted_def)
  show "last (bots w) < bnew (preempted h t w)" using B(2) [OF l] by (simp add: preempted_def)
  show "timers (preempted h t w) h = None" by (simp add: preempted_def)
  show "h < tnew (preempted h t w)"
    using timers_invD1(4) [OF inv(2) tm] by (simp add: preempted_def)
  show "bstore (preempted h t w) (last (bots w)) =
      (bstore w (last (bots w)))\<lparr>processingTimeout := None, currentOrder := None,
         bstatus := IDLE\<rparr>"
    by (simp add: preempted_def)
qed

lemma removeBot_not_complete:
  assumes ok: "consistent w" and ne: "bots w \<noteq> []"
    and h: "processingTimeout (bstore w (last (bots w))) = Some h"
    and cur: "currentOrder (bstore w (last (bots w))) = Some t"
  shows "ostatus (ostore (snd (removeBot w)) t) \<noteq> COMPLETE"
proof -
  have "consistent (snd (removeBot w)) \<and> ostatus (ostore (snd (removeBot w)) t) \<noteq> COMPLETE"
    by (rule removeBot_busy_keeps [OF loop_stable_not_complete ne h cur])
       (simp add: consistent_preempted [OF ok ne h cur], simp add: preempted_def)
  then show ?thesis by simp
qed

text \<open>Claim C7. In every state a controller reaches whose most recently added bot holds an
  order \<open>t\<close>, \<open>removeBot\<close> cancels the timeout \<open>h\<close> of that bot, and in every state that any
  further sequence of operations and timer expiries leads to: \<open>h\<close> is not pending, so its
  expiry runs nothing; the removed bot is not in the pool, no pending timeout belongs to it,
  and it stays idle without an order; and whenever a step marks \<open>t\<close> \<open>COMPLETE\<close>, that step
  is the expiry of a pending timeout of a bot of the pool that holds \<open>t\<close>, which is not the
  removed bot. Right after \<open>removeBot\<close> the order \<open>t\<close> is not \<open>COMPLETE\<close>.\<close>

theorem cancelled_timeout_never_completes:
  fixes lg :: "message list \<Rightarrow> message \<Rightarrow> bool" and es es' :: "event list"
  defines "w \<equiv> run es (newController lg)"
  defines "v \<equiv> run es' (snd (removeBot w))"
  assumes ne: "bots w \<noteq> []" and cur: "currentOrder (bstore w (last (bots w))) = Some t"
  shows "(\<exists>h. processingTimeout (bstore w (last (bots w))) = Some h \<and>
            timers w h = Some (last (bots w), Some (OnOrderCompleted (last (bots w)))) \<and>
            timers v h = None \<and> timerFires h v = (Inr (), v))
       \<and> ostatus (ostore (snd (removeBot w)) t) \<noteq> COMPLETE
       \<and> last (bots w) \<notin> set (bots v)
       \<and> (\<forall>x c cb. timers v x = Some (c, cb) \<longrightarrow> c \<noteq> last (bots w))
       \<and> bstatus (bstore v (last (bots w))) = IDLE
       \<and> currentOrder (bstore v (last (bots w))) = None
       \<and> processingTimeout (bstore v (last (bots w))) = None
       \<and> (\<forall>e. ostatus (ostore v t) \<noteq> COMPLETE \<and> ostatus (ostore (step e v) t) = COMPLETE \<longrightarrow>
            (\<exists>x c. e = TimerFires x \<and> timers v x = Some (c, Some (OnOrderCompleted c)) \<and>
               c \<in> set (bots v) \<and> c \<noteq> last (bots w) \<and> currentOrder (bstore v c) = Some t))"
proof -
  let ?b = "last (bots w)"
  let ?x = "(bstore w ?b)\<lparr>processingTimeout := None, currentOrder := None, bstatus := IDLE\<rparr>"
  have ok: "consistent w" unfolding w_def by (rule consistent_reachable)
  from holder_busy(2) [OF ok cur]
  obtain h where h: "processingTimeout (bstore w ?b) = Some h" ..
  have tm: "timers w h = Some (?b, Some (OnOrderCompleted ?b))"
    by (rule timers_invD2 [OF consistentD(2) [OF ok] h])
  have "retired ?b h ?x v"
    unfolding v_def by (rule stable_run [OF stable_retired removeBot_retires [OF ok ne h cur]])
  note d = retiredD [OF this]
  have 1: "\<exists>h. processingTimeout (bstore w ?b) = Some h \<and>
            timers w h = Some (?b, Some (OnOrderCompleted ?b)) \<and>
            timers v h = None \<and> timerFires h v = (Inr (), v)"
    using h tm d(4) timerFires_idle [OF d(4)] by blast
  have 2: "ostatus (ostore (snd (removeBot w)) t) \<noteq> COMPLETE"
    by (rule removeBot_not_complete [OF ok ne h cur])
  have own: "c \<noteq> ?b" if "timers v x = Some (c, cb)" for x c cb
    using timers_invD1(1) [OF consistentD(2) [OF d(1)] that] d(2) by blast
  then have 4: "\<forall>x c cb. timers v x = Some (c, cb) \<longrightarrow> c \<noteq> ?b" by blast
  have 5: "bstatus (bstore v ?b) = IDLE" by (simp add: d(6))
  have 6: "currentOrder (bstore v ?b) = None" by (simp add: d(6))
  have 7: "processingTimeout (bstore v ?b) = None" by (simp add: d(6))
  have 8: "\<exists>x c. e = TimerFires x \<and> timers v x = Some (c, Some (OnOrderCompleted c)) \<and>
               c \<in> set (bots v) \<and> c \<noteq> ?b \<and> currentOrder (bstore v c) = Some t"
    if "ostatus (ostore v t) \<noteq> COMPLETE \<and> ostatus (ostore (step e v) t) = COMPLETE" for e
  proof -
    from that have a: "ostatus (ostore v t) \<noteq> COMPLETE"
      and b: "ostatus (ostore (step e v) t) = COMPLETE" by simp_all
    from completed_by_holder [OF d(1) a b]
    obtain x c where xc: "e = TimerFires x" "timers v x = Some (c, Some (OnOrderCompleted c))"
      "c \<in> set (bots v)" "currentOrder (bstore v c) = Some t" by blast
    from xc(3) d(2) have "c \<noteq> ?b" by blast
    with xc show ?thesis by blast
  qed
  then have c8: "\<forall>e. ostatus (ostore v t) \<noteq> COMPLETE \<and> ostatus (ostore (step e v) t) = COMPLETE \<longrightarrow>
            (\<exists>x c. e = TimerFires x \<and> timers v x = Some (c, Some (OnOrderCompleted c)) \<and>
               c \<in> set (bots v) \<and> c \<noteq> ?b \<and> currentOrder (bstore v c) = Some t)"
    by blast
  show ?thesis
    by (intro conjI 1 2 d(2) 4 5 6 7 c8)
qed

lemma example_stop_run_facts:
  "bots example_stop_run = [0, 1]"
  "currentOrder (bstore example_stop_run (Suc 0)) = Some (Suc 0)"
  "processingTimeout (bstore example_stop_run (Suc 0)) = Some (Suc 0)"
  "ostatus (ostore (snd (removeBot example_stop_run)) (Suc 0)) = PENDING"
  unfolding example_stop_run_def by (simp_all add: eval_defs)

lemma example_after_stop_facts:
  "bots example_after_stop = [0]"
  "timers example_after_stop (Suc 0) = None"
  "timers example_after_stop 2 = Some (0, Some (OnOrderCompleted 0))"
  "currentOrder (bstore example_after_stop 0) = Some (Suc 0)"
  "ostatus (ostore example_after_stop (Suc 0)) = PROCESSING"
  "ostatus (ostore example_after_stop 0) = COMPLETE"
  "ostatus (ostore (snd (timerFires 2 example_after_stop)) (Suc 0)) = COMPLETE"
  unfolding example_after_stop_def example_stop_run_def by (simp_all add: eval_defs)

theorem cancelled_timeout_never_completes_witness:
  "bots example_stop_run = [0, 1]
   \<and> currentOrder (bstore example_stop_run 1) = Some 1
   \<and> processingTimeout (bstore example_stop_run 1) = Some 1
   \<and> ostatus (ostore (snd (removeBot example_stop_run)) 1) = PENDING
   \<and> timers example_after_stop 1 = None
   \<and> timerFires 1 example_after_stop = (Inr (), example_after_stop)
   \<and> bots example_after_stop = [0]
   \<and> bstatus (bstore example_after_stop 1) = IDLE
   \<and> ostatus (ostore example_after_stop 1) = PROCESSING
   \<and> ostatus (ostore (step (TimerFires 2) example_after_stop) 1) = COMPLETE
   \<and> timers example_after_stop 2 = Some (0, Some (OnOrderCompleted 0))
   \<and> currentOrder (bstore example_after_stop 0) = Some 1"
  using cancelled_timeout_never_completes
    [where es = "[AddBot, AddBot, CreateNormalOrder, CreateNormalOrder]" and lg = silent
       and es' = "[TimerFires 1, TimerFires 0, TimerFires 1]" and t = 1,
     folded example_stop_run_def, folded example_after_stop_def]
  by (simp add: example_stop_run_facts example_after_stop_facts)

lemma logged_throws:
  "logger v (calls v) m \<Longrightarrow>
     andThen (call_logger m) f v = (Inl LoggerError, v\<lparr>calls := calls v @ [m]\<rparr>)"
  by (simp add: andThen_def call_logger_def)

lemma bindings_calls: "bindings (v\<lparr>calls := c\<rparr>) = bindings v"
  by (simp add: bindings_def)

lemma pass_messages_calls: "pass_messages (v\<lparr>calls := c\<rparr>) = pass_messages v"
  by (simp add: pass_messages_def pickup_message_def bindings_def)

lemma logged_returns_pass:
  assumes d: "distinct (bots v)"
    and l: "logger_returns (logger v) (calls v) (m # pass_messages v)"
  shows "andThen (call_logger m) (\<lambda>_. andThen assignOrdersToIdleBots (\<lambda>_ w'. (Inr x, w'))) v =
     (Inr x, bind_all (bindings v) (v\<lparr>calls := calls v @ [m]\<rparr>))"
proof -
  let ?u = "v\<lparr>calls := calls v @ [m]\<rparr>"
  from l have m: "\<not> logger v (calls v) m"
    and rest: "logger_returns (logger v) (calls v @ [m]) (pass_messages v)" by simp_all
  have du: "distinct (bots ?u)" using d by simp
  have lu: "logger_returns (logger ?u) (calls ?u) (pass_messages ?u)"
    using rest by (simp add: pass_messages_calls)
  have pass: "assignOrdersToIdleBots ?u = (Inr (), bind_all (bindings v) ?u)"
    using assign_bind_all [OF du lu] by (simp add: bindings_calls)
  have log: "call_logger m v = (Inr (), ?u)" using m by (simp add: call_logger_def)
  show ?thesis by (simp add: andThen_def log pass)
qed

lemma createOrder_throws:
  assumes "logger w (calls w) (OrderCreated ty (nextOrderNumber w) PENDING)"
  shows "createOrder ty w =
     (Inl LoggerError,
      (created ty w)\<lparr>calls := calls w @ [OrderCreated ty (nextOrderNumber w) PENDING]\<rparr>)"
proof -
  have "logger (created ty w) (calls (created ty w)) (OrderCreated ty (nextOrderNumber w) PENDING)"
    using assms by (simp add: created_def)
  from logged_throws [OF this] show ?thesis
    unfolding createOrder_created by (simp add: created_def)
qed

lemma createOrder_returns:
  assumes d: "distinct (bots w)"
    and l: "logger_returns (logger w) (calls w)
        (OrderCreated ty (nextOrderNumber w) PENDING # pass_messages (created ty w))"
  shows "createOrder ty w =
     (Inr (onew w), bind_all (bindings (created ty w))
        ((created ty w)\<lparr>calls := calls w @ [OrderCreated ty (nextOrderNumber w) PENDING]\<rparr>))"
proof -
  have c: "calls (created ty w) = calls w" "logger (created ty w) = logger w"
    "bots (created ty w) = bots w" by (simp_all add: created_def)
  have d': "distinct (bots (created ty w))" using d by (simp add: c)
  have l': "logger_returns (logger (created ty w)) (calls (created ty w))
        (OrderCreated ty (nextOrderNumber w) PENDING # pass_messages (created ty w))"
    using l by (simp only: c)
  show ?thesis
    unfolding createOrder_created logged_returns_pass [OF d' l'] by (simp only: c)
qed

lemma addBot_throws:
  assumes "logger w (calls w) (BotCreated (nextBotId w))"
  shows "addBot w =
     (Inl LoggerError, (added w)\<lparr>calls := calls w @ [BotCreated (nextBotId w)]\<rparr>)"
proof -
  have "logger (added w) (calls (added w)) (BotCreated (nextBotId w))"
    using assms by (simp add: added_def)
  from logged_throws [OF this] show ?thesis
    unfolding addBot_added by (simp add: added_def)
qed

lemma addBot_returns:
  assumes ok: "consistent w"
    and l: "logger_returns (logger w) (calls w)
        (BotCreated (nextBotId w) # pass_messages (added w))"
  shows "addBot w =
     (Inr (bnew w), bind_all (bindings (added w))
        ((added w)\<lparr>calls := calls w @ [BotCreated (nextBotId w)]\<rparr>))"
proof -
  have c: "calls (added w) = calls w" "logger (added w) = logger w"
    by (simp_all add: added_def)
  have d': "distinct (bots (added w))"
    by (rule bots_invD(1) [OF consistentD(1) [OF consistent_added [OF ok]]])
  have l': "logger_returns (logger (added w)) (calls (added w))
        (BotCreated (nextBotId w) # pass_messages (added w))"
    using l by (simp only: c)
  show ?thesis
    unfolding addBot_added logged_returns_pass [OF d' l'] by (simp only: c)
qed

lemma removeBot_idle_logged:
  assumes "bots w \<noteq> []" and "currentOrder (bstore w (last (bots w))) = None"
    and ok: "consistent w"
  shows "removeBot w =
     (if logger w (calls w) (BotDestroyedIdle (botId (bstore w (last (bots w)))))
      then Inl LoggerError else Inr (Some (last (bots w))),
      (popped w)\<lparr>calls := calls w @ [BotDestroyedIdle (botId (bstore w (last (bots w))))]\<rparr>)"
proof -
  note k = bot_okD [OF bots_invD(3) [OF consistentD(1) [OF ok], of "last (bots w)"]]
  from k(2) assms(2) have n: "processingTimeout (bstore w (last (bots w))) = None" by simp
  show ?thesis
    unfolding removeBot_popped [OF assms(1) n assms(2)]
    by (simp add: andThen_def call_logger_def popped_def)
qed

lemma removeBot_throws:
  assumes ne: "bots w \<noteq> []"
    and h: "processingTimeout (bstore w (last (bots w))) = Some h"
    and cur: "currentOrder (bstore w (last (bots w))) = Some t"
    and l: "logger w (calls w)
        (BotDestroyedProcessing (botId (bstore w (last (bots w)))) (orderNumber (ostore w t)))"
  shows "removeBot w =
     (Inl LoggerError,
      (preempted h t w)\<lparr>calls := calls w @
         [BotDestroyedProcessing (botId (bstore w (last (bots w)))) (orderNumber (ostore w t))]\<rparr>)"
proof -
  have "logger (preempted h t w) (calls (preempted h t w))
      (BotDestroyedProcessing (botId (bstore w (last (bots w)))) (orderNumber (ostore w t)))"
    using l by (simp add: preempted_def)
  from logged_throws [OF this] show ?thesis
    unfolding removeBot_preempted [OF ne h cur] by (simp add: preempted_def)
qed

lemma removeBot_returns:
  assumes ok: "consistent w" and ne: "bots w \<noteq> []"
    and h: "processingTimeout (bstore w (last (bots w))) = Some h"
    and cur: "currentOrder (bstore w (last (bots w))) = Some t"
    and l: "logger_returns (logger w) (calls w)
        (BotDestroyedProcessing (botId (bstore w (last (bots w)))) (orderNumber (ostore w t)) #
         pass_messages (preempted h t w))"
  shows "removeBot w =
     (Inr (Some (last (bots w))), bind_all (bindings (preempted h t w))
      ((preempted h t w)\<lparr>calls := calls w @
         [BotDestroyedProcessing (botId (bstore w (last (bots w)))) (orderNumber (ostore w t))]\<rparr>))"
proof -
  have c: "calls (preempted h t w) = calls w" "logger (preempted h t w) = logger w"
    by (simp_all add: preempted_def)
  have d': "distinct (bots (preempted h t w))"
    by (rule bots_invD(1) [OF consistentD(1) [OF consistent_preempted [OF ok ne h cur]]])
  have l': "logger_returns (logger (preempted h t w)) (calls (preempted h t w))
        (BotDestroyedProcessing (botId (bstore w (last (bots w)))) (orderNumber (ostore w t)) #
         pass_messages (preempted h t w))"
    using l by (simp only: c)
  show ?thesis
    unfolding removeBot_preempted [OF ne h cur] logged_returns_pass [OF d' l'] by (simp only: c)
qed

lemma example_throw_run_facts:
  "bots example_throw_run = [0]"
  "bstatus (bstore example_throw_run 0) = IDLE"
  "currentOrder (bstore example_throw_run 0) = None"
  "calls example_throw_run = [BotCreated 1]"
  "nextOrderNumber example_throw_run = 1001"
  "nextBotId example_throw_run = 2"
  "botId (bstore example_throw_run 0) = 1"
  "bnew example_throw_run = Suc 0"
  "logger example_throw_run = picky"
  "pass_messages (added example_throw_run) = []"
  "orders (orderQueue (created NORMAL example_throw_run)) = [0]"
  "bots (created NORMAL example_throw_run) = [0]"
  "bstatus (bstore (created NORMAL example_throw_run) 0) = IDLE"
  "bots (popped example_throw_run) = []"
  unfolding example_throw_run_def
  by (simp_all add: eval_defs picky_def added_def created_def popped_def pass_messages_def
      bindings_def)

theorem createOrder_logger_throws_counterexample:
  "fst (createNormalOrder example_throw_run) = Inl LoggerError
   \<and> bots (snd (createNormalOrder example_throw_run)) = [0]
   \<and> bstatus (bstore (snd (createNormalOrder example_throw_run)) 0) = IDLE
   \<and> getPendingOrders (snd (createNormalOrder example_throw_run)) = [0]
   \<and> fst (createNormalOrder example_idle_run) = Inr 0
   \<and> bstatus (bstore (snd (createNormalOrder example_idle_run)) 0) = BOT_PROCESSING
   \<and> getPendingOrders (snd (createNormalOrder example_idle_run)) = []"
  unfolding example_throw_run_def example_idle_run_def
  by (simp add: eval_defs picky_def)

text \<open>Claim C5, as amended. The controller calls the logger with no handler around the
  call, in every state it reaches. If the call that announces an operation (the creation of
  the order, the creation or the removal of the bot) throws, the exception leaves the
  operation: the state is the one reached before the call (the order created and queued,
  the bot added, or removed and its order queued again) with the message logged, and the
  assignment pass is not run. If the logger returns from the announcement and from the
  message of each binding of the pass, the operation returns its order or bot and the pass
  has made all its bindings. \<open>createNormalOrder\<close> and \<open>createVIPOrder\<close> are \<open>createOrder\<close> at
  the two order types; \<open>removeBot\<close> of an idle bot runs no pass.\<close>

theorem logger_exception_leaves_operation:
  fixes lg :: "message list \<Rightarrow> message \<Rightarrow> bool" and es :: "event list"
  defines "w \<equiv> run es (newController lg)"
  shows "(logger w (calls w) (OrderCreated ty (nextOrderNumber w) PENDING) \<longrightarrow>
          createOrder ty w =
            (Inl LoggerError,
             (created ty w)\<lparr>calls := calls w @ [OrderCreated ty (nextOrderNumber w) PENDING]\<rparr>))
       \<and> (logger_returns (logger w) (calls w)
            (OrderCreated ty (nextOrderNumber w) PENDING # pass_messages (created ty w)) \<longrightarrow>
          createOrder ty w =
            (Inr (onew w), bind_all (bindings (created ty w))
               ((created ty w)\<lparr>calls := calls w @
                  [OrderCreated ty (nextOrderNumber w) PENDING]\<rparr>)))
       \<and> (logger w (calls w) (BotCreated (nextBotId w)) \<longrightarrow>
          addBot w =
            (Inl LoggerError, (added w)\<lparr>calls := calls w @ [BotCreated (nextBotId w)]\<rparr>))
       \<and> (logger_returns (logger w) (calls w)
            (BotCreated (nextBotId w) # pass_messages (added w)) \<longrightarrow>
          addBot w =
            (Inr (bnew w), bind_all (bindings (added w))
               ((added w)\<lparr>calls := calls w @ [BotCreated (nextBotId w)]\<rparr>)))
       \<and> (bots w \<noteq> [] \<and> currentOrder (bstore w (last (bots w))) = None \<longrightarrow>
          removeBot w =
            (if logger w (calls w) (BotDestroyedIdle (botId (bstore w (last (bots w)))))
             then Inl LoggerError else Inr (Some (last (bots w))),
             (popped w)\<lparr>calls := calls w @
                [BotDestroyedIdle (botId (bstore w (last (bots w))))]\<rparr>))
       \<and> (bots w \<noteq> [] \<and> processingTimeout (bstore w (last (bots w))) = Some h \<and>
          currentOrder (bstore w (last (bots w))) = Some t \<and>
          logger w (calls w)
            (BotDestroyedProcessing (botId (bstore w (last (bots w))))
               (orderNumber (ostore w t))) \<longrightarrow>
          removeBot w =
            (Inl LoggerError,
             (preempted h t w)\<lparr>calls := calls w @
                [BotDestroyedProcessing (botId (bstore w (last (bots w))))
                   (orderNumber (ostore w t))]\<rparr>))
       \<and> (bots w \<noteq> [] \<and> processingTimeout (bstore w (last (bots w))) = Some h \<and>
          currentOrder (bstore w (last (bots w))) = Some t \<and>
          logger_returns (logger w) (calls w)
            (BotDestroyedProcessing (botId (bstore w (last (bots w))))
               (orderNumber (ostore w t)) # pass_messages (preempted h t w)) \<longrightarrow>
          removeBot w =
            (Inr (Some (last (bots w))), bind_all (bindings (preempted h t w))
               ((preempted h t w)\<lparr>calls := calls w @
                  [BotDestroyedProcessing (botId (bstore w (last (bots w))))
                     (orderNumber (ostore w t))]\<rparr>)))"
proof -
  have ok: "consistent w" unfolding w_def by (rule consistent_reachable)
  note d = bots_invD(1) [OF consistentD(1) [OF ok]]
  show ?thesis
  proof (intro conjI impI)
    assume "logger w (calls w) (OrderCreated ty (nextOrderNumber w) PENDING)"
    then show "createOrder ty w =
            (Inl LoggerError,
             (created ty w)\<lparr>calls := calls w @ [OrderCreated ty (nextOrderNumber w) PENDING]\<rparr>)"
      by (rule createOrder_throws)
  next
    assume "logger_returns (logger w) (calls w)
            (OrderCreated ty (nextOrderNumber w) PENDING # pass_messages (created ty w))"
    then show "createOrder ty w =
            (Inr (onew w), bind_all (bindings (created ty w))
               ((created ty w)\<lparr>calls := calls w @
                  [OrderCreated ty (nextOrderNumber w) PENDING]\<rparr>))"
      by (rule createOrder_returns [OF d])
  next
    assume "logger w (calls w) (BotCreated (nextBotId w))"
    then show "addBot w =
            (Inl LoggerError, (added w)\<lparr>calls := calls w @ [BotCreated (nextBotId w)]\<rparr>)"
      by (rule addBot_throws)
  next
    assume "logger_returns (logger w) (calls w)
            (BotCreated (nextBotId w) # pass_messages (added w))"
    then show "addBot w =
            (Inr (bnew w), bind_all (bindings (added w))
               ((added w)\<lparr>calls := calls w @ [BotCreated (nextBotId w)]\<rparr>))"
      by (rule addBot_returns [OF ok])
  next
    assume a: "bots w \<noteq> [] \<and> currentOrder (bstore w (last (bots w))) = None"
    show "removeBot w =
            (if logger w (calls w) (BotDestroyedIdle (botId (bstore w (last (bots w)))))
             then Inl LoggerError else Inr (Some (last (bots w))),
             (popped w)\<lparr>calls := calls w @
                [BotDestroyedIdle (botId (bstore w (last (bots w))))]\<rparr>)"
      by (rule removeBot_idle_logged [OF a [THEN conjunct1] a [THEN conjunct2] ok])
  next
    assume a: "bots w \<noteq> [] \<and> processingTimeout (bstore w (last (bots w))) = Some h \<and>
          currentOrder (bstore w (last (bots w))) = Some t \<and>
          logger w (calls w)
            (BotDestroyedProcessing (botId (bstore w (last (bots w))))
               (orderNumber (ostore w t)))"
    show "removeBot w =
            (Inl LoggerError,
             (preempted h t w)\<lparr>calls := calls w @
                [BotDestroyedProcessing (botId (bstore w (last (bots w))))
                   (orderNumber (ostore w t))]\<rparr>)"
      by (rule removeBot_throws [OF a [THEN conjunct1] a [THEN conjunct2, THEN conjunct1]
            a [THEN conjunct2, THEN conjunct2, THEN conjunct1]
            a [THEN conjunct2, THEN conjunct2, THEN conjunct2]])
  next
    assume a: "bots w \<noteq> [] \<and> processingTimeout (bstore w (last (bots w))) = Some h \<and>
          currentOrder (bstore w (last (bots w))) = Some t \<and>
          logger_returns (logger w) (calls w)
            (BotDestroyedProcessing (botId (bstore w (last (bots w))))
               (orderNumber (ostore w t)) # pass_messages (preempted h t w))"
    show "removeBot w =
            (Inr (Some (last (bots w))), bind_all (bindings (preempted h t w))
               ((preempted h t w)\<lparr>calls := calls w @
                  [BotDestroyedProcessing (botId (bstore w (last (bots w))))
                     (orderNumber (ostore w t))]\<rparr>))"
      by (rule removeBot_returns [OF ok a [THEN conjunct1] a [THEN conjunct2, THEN conjunct1]
            a [THEN conjunct2, THEN conjunct2, THEN conjunct1]
            a [THEN conjunct2, THEN conjunct2, THEN conjunct2]])
  qed
qed

lemma example_busy_throw_run_facts:
  "bots example_busy_throw_run = [0]"
  "processingTimeout (bstore example_busy_throw_run 0) = Some 0"
  "currentOrder (bstore example_busy_throw_run 0) = Some (Suc 0)"
  "botId (bstore example_busy_throw_run 0) = 1"
  "orderNumber (ostore example_busy_throw_run (Suc 0)) = 1002"
  "logger example_busy_throw_run = picky"
  "nextBotId example_busy_throw_run = 3"
  "getPendingOrders example_busy_throw_run = [0]"
  "bots (preempted 0 (Suc 0) example_busy_throw_run) = []"
  "orders (orderQueue (preempted 0 (Suc 0) example_busy_throw_run)) = [Suc 0, 0]"
  unfolding example_busy_throw_run_def
  by (simp_all add: eval_defs picky_def preempted_def)

lemma example_idle_run_logged:
  "logger example_idle_run = silent"
  "currentOrder (bstore example_idle_run 0) = None"
  "onew example_idle_run = 0"
  "nextOrderNumber example_idle_run = 1001"
  "pass_messages (created NORMAL example_idle_run) = [BotPickedUp 1 NORMAL 1001 PROCESSING]"
  unfolding example_idle_run_def
  by (simp_all add: eval_defs created_def pass_messages_def pickup_message_def bindings_def)

lemma example_queue_run_logged:
  "logger example_queue_run = silent"
  "processingTimeout (bstore example_queue_run (Suc 0)) = Some (Suc 0)"
  "pass_messages (preempted (Suc 0) (Suc 0) example_queue_run) = []"
  unfolding example_queue_run_def
  by (simp_all add: eval_defs preempted_def pass_messages_def pickup_message_def bindings_def)

theorem logger_exception_leaves_operation_witness:
  "logger example_throw_run (calls example_throw_run)
     (OrderCreated NORMAL (nextOrderNumber example_throw_run) PENDING)
   \<and> fst (createOrder NORMAL example_throw_run) = Inl LoggerError
   \<and> orders (orderQueue (snd (createOrder NORMAL example_throw_run))) = [0]
   \<and> bstatus (bstore (snd (createOrder NORMAL example_throw_run)) 0) = IDLE
   \<and> fst (addBot example_throw_run) = Inr 1
   \<and> fst (removeBot example_throw_run) = Inl LoggerError
   \<and> bots (snd (removeBot example_throw_run)) = []
   \<and> fst (addBot example_busy_throw_run) = Inl LoggerError
   \<and> fst (removeBot example_busy_throw_run) = Inl LoggerError
   \<and> bots (snd (removeBot example_busy_throw_run)) = []
   \<and> orders (orderQueue (snd (removeBot example_busy_throw_run))) = [1, 0]
   \<and> fst (createOrder NORMAL example_idle_run) = Inr 0
   \<and> fst (removeBot example_idle_run) = Inr (Some 0)
   \<and> fst (removeBot example_queue_run) = Inr (Some 1)"
proof -
  note a = logger_exception_leaves_operation
    [where es = "[AddBot]" and lg = picky and ty = NORMAL, folded example_throw_run_def]
  note b = logger_exception_leaves_operation
    [where es = "[CreateNormalOrder, CreateVIPOrder, AddBot, AddBot, RemoveBot]" and lg = picky
       and h = 0 and t = 1, folded example_busy_throw_run_def]
  note c = logger_exception_leaves_operation
    [where es = "[AddBot]" and lg = silent and ty = NORMAL, folded example_idle_run_def]
  note d = logger_exception_leaves_operation
    [where es = "[AddBot, AddBot, CreateVIPOrder, CreateVIPOrder, CreateVIPOrder,
        CreateNormalOrder]" and lg = silent and h = 1 and t = 1, folded example_queue_run_def]
  have 0: "logger example_throw_run (calls example_throw_run)
     (OrderCreated NORMAL (nextOrderNumber example_throw_run) PENDING)"
    by (simp add: example_throw_run_facts picky_def)
  have 1: "fst (createOrder NORMAL example_throw_run) = Inl LoggerError"
    "orders (orderQueue (snd (createOrder NORMAL example_throw_run))) = [0]"
    "bstatus (bstore (snd (createOrder NORMAL example_throw_run)) 0) = IDLE"
    using a [THEN conjunct1] 0 by (simp_all add: example_throw_run_facts)
  have 2: "fst (addBot example_throw_run) = Inr 1"
    using a [THEN conjunct2, THEN conjunct2, THEN conjunct2, THEN conjunct1]
    by (simp add: example_throw_run_facts picky_def)
  have 3: "fst (removeBot example_throw_run) = Inl LoggerError"
    "bots (snd (removeBot example_throw_run)) = []"
    using a [THEN conjunct2, THEN conjunct2, THEN conjunct2, THEN conjunct2, THEN conjunct1]
    by (simp_all add: example_throw_run_facts picky_def)
  have 4: "fst (addBot example_busy_throw_run) = Inl LoggerError"
    using b [THEN conjunct2, THEN conjunct2, THEN conjunct1]
    by (simp add: example_busy_throw_run_facts picky_def)
  have 5: "fst (removeBot example_busy_throw_run) = Inl LoggerError"
    "bots (snd (removeBot example_busy_throw_run)) = []"
    "orders (orderQueue (snd (removeBot example_busy_throw_run))) = [1, 0]"
    using b [THEN conjunct2, THEN conjunct2, THEN conjunct2, THEN conjunct2, THEN conjunct2,
        THEN conjunct1]
    by (simp_all add: example_busy_throw_run_facts picky_def)
  have 6: "fst (createOrder NORMAL example_idle_run) = Inr 0"
    using c [THEN conjunct2, THEN conjunct1]
    by (simp add: example_idle_run_facts example_idle_run_logged silent_def)
  have 7: "fst (removeBot example_idle_run) = Inr (Some 0)"
    using c [THEN conjunct2, THEN conjunct2, THEN conjunct2, THEN conjunct2, THEN conjunct1]
    by (simp add: example_idle_run_facts example_idle_run_logged silent_def)
  have 8: "fst (removeBot example_queue_run) = Inr (Some 1)"
    using d [THEN conjunct2, THEN conjunct2, THEN conjunct2, THEN conjunct2, THEN conjunct2,
        THEN conjunct2]
    by (simp add: example_queue_run_facts example_queue_run_logged silent_def)
  show ?thesis
    by (intro conjI 0 1 2 3 4 5 6 7 8)
qed

lemma loop_stable_completed:
  "loop_stable (\<lambda>v. consistent v \<and> completedOrders v = X \<and> ostatus (ostore v r) = COMPLETE)"
proof (rule loop_stableI)
  fix w assume "consistent w \<and> completedOrders w = X \<and> ostatus (ostore w r) = COMPLETE"
  then show "consistent w" by simp
next
  fix w c assume "consistent w \<and> completedOrders w = X \<and> ostatus (ostore w r) = COMPLETE"
  then show "consistent (w\<lparr>calls := c\<rparr>) \<and> completedOrders (w\<lparr>calls := c\<rparr>) = X \<and>
      ostatus (ostore (w\<lparr>calls := c\<rparr>) r) = COMPLETE" by simp
next
  fix w b r' q
  assume a: "consistent w \<and> completedOrders w = X \<and> ostatus (ostore w r) = COMPLETE"
    and b: "b \<in> set (bots w)" and idle: "bstatus (bstore w b) = IDLE"
    and q: "orders (orderQueue w) = r' # q"
  from a have ok: "consistent w" and x: "completedOrders w = X"
    and c: "ostatus (ostore w r) = COMPLETE" by simp_all
  have "r' \<in> set (orders (orderQueue w))" by (simp add: q)
  then have "ostatus (ostore w r') = PENDING"
    using orders_invD(4) [OF consistentD(3) [OF ok], of r'] by simp
  with c have ne: "r' \<noteq> r" by auto
  have 1: "consistent (bound b r' w)" by (rule consistent_bound [OF ok b idle q])
  have 2: "completedOrders (bound b r' w) = X" using x by (simp add: bound_def)
  have 3: "ostatus (ostore (bound b r' w) r) = COMPLETE" using c ne by (simp add: bound_def)
  show "consistent (bound b r' w) \<and> completedOrders (bound b r' w) = X \<and>
      ostatus (ostore (bound b r' w) r) = COMPLETE"
    by (intro conjI 1 2 3)
qed

lemma timerFires_completes:
  assumes ok: "consistent w" and tm: "timers w x = Some (b, Some (OnOrderCompleted b))"
    and pt: "processingTimeout (bstore w b) = Some x"
    and cur: "currentOrder (bstore w b) = Some r"
  shows "ostatus (ostore (snd (timerFires x w)) r) = COMPLETE"
    and "completedOrders (snd (timerFires x w)) = completedOrders w @ [r]"
proof -
  let ?Q = "\<lambda>v. consistent v \<and> completedOrders v = completedOrders w @ [r] \<and>
      ostatus (ostore v r) = COMPLETE"
  have "?Q (snd (timerFires x w))"
  proof (rule loop_stable_timerFires [OF loop_stable_completed ok])
    assume "timers w x = None"
    with tm show "?Q w" by simp
  next
    fix b' r'
    assume a: "timers w x = Some (b', Some (OnOrderCompleted b'))"
      "processingTimeout (bstore w b') = Some x" "currentOrder (bstore w b') = Some r'"
    from a(1) tm have b': "b' = b" by simp
    with a(3) cur have r': "r' = r" by simp
    have 1: "consistent (finished b x r w)" by (rule consistent_finished [OF ok pt cur])
    have 2: "completedOrders (finished b x r w) = completedOrders w @ [r]"
      by (simp add: finished_def)
    have 3: "ostatus (ostore (finished b x r w) r) = COMPLETE" by (simp add: finished_def)
    show "?Q (finished b' x r' w)" unfolding b' r' by (intro conjI 1 2 3)
  qed
  then show "ostatus (ostore (snd (timerFires x w)) r) = COMPLETE"
    and "completedOrders (snd (timerFires x w)) = completedOrders w @ [r]" by simp_all
qed

lemma timerFires_runs_pass:
  assumes tm: "timers w x = Some (b, Some (OnOrderCompleted b))"
    and pt: "processingTimeout (bstore w b) = Some x"
    and cur: "currentOrder (bstore w b) = Some r"
    and l: "\<not> logger w (calls w) m"
    and m: "m = BotCompleted (botId (bstore w b)) (otype (ostore w r))
                (orderNumber (ostore w r)) COMPLETE"
  shows "\<exists>c. snd (timerFires x w) =
      (snd (assignOrdersToIdleBots ((finished b x r w)\<lparr>calls := calls w @ [m]\<rparr>)))\<lparr>calls := c\<rparr>"
proof -
  let ?u = "(finished b x r w)\<lparr>calls := calls w @ [m]\<rparr>"
  have log: "call_logger m (finished b x r w) = (Inr (), ?u)"
    using l by (simp add: call_logger_def finished_def)
  obtain res s where pass: "assignOrdersToIdleBots ?u = (res, s)"
    by (cases "assignOrdersToIdleBots ?u")
  have s: "s = s\<lparr>calls := calls s\<rparr>" by simp
  show ?thesis
  proof (cases res)
    case (Inl e)
    then have "snd (timerFires x w) = s"
      unfolding timerFires_finished [OF tm pt cur] m [symmetric]
      by (simp add: andThen_def log pass)
    with s pass show ?thesis by (metis snd_conv)
  next
    case (Inr u)
    then have "timerFires x w =
        (if isEmpty (orderQueue s) \<and> isIdle (bstore s b)
         then call_logger (BotNowIdle (botId (bstore s b))) s else (Inr (), s))"
      unfolding timerFires_finished [OF tm pt cur] m [symmetric]
      by (simp add: andThen_def log pass)
    then have "snd (timerFires x w) = s \<or>
        snd (timerFires x w) = s\<lparr>calls := calls s @ [BotNowIdle (botId (bstore s b))]\<rparr>"
      by (simp add: call_logger_def)
    with s pass show ?thesis by (metis snd_conv)
  qed
qed

lemma filter_single:
  "distinct xs \<Longrightarrow> b \<in> set xs \<Longrightarrow> P b \<Longrightarrow> \<forall>c \<in> set xs. c \<noteq> b \<longrightarrow> \<not> P c \<Longrightarrow> filter P xs = [b]"
proof (induction xs)
  case Nil
  then show ?case by simp
next
  case (Cons a xs)
  show ?case
  proof (cases "a = b")
    case True
    with Cons.prems have "\<forall>c \<in> set xs. \<not> P c" by auto
    then have "filter P xs = []" by (simp add: filter_empty_conv)
    with True Cons.prems(3) show ?thesis by simp
  next
    case False
    with Cons.prems have "\<not> P a" "distinct xs" "b \<in> set xs" "\<forall>c \<in> set xs. c \<noteq> b \<longrightarrow> \<not> P c"
      by auto
    with Cons.IH Cons.prems(3) show ?thesis by simp
  qed
qed

lemma timerFires_next:
  assumes ok: "consistent w" and tm: "timers w x = Some (b, Some (OnOrderCompleted b))"
    and pt: "processingTimeout (bstore w b) = Some x"
    and cur: "currentOrder (bstore w b) = Some r"
    and q: "orders (orderQueue w) = r' # q"
    and busy: "\<forall>c \<in> set (bots w). \<not> isIdle (bstore w c)"
    and m: "m = BotCompleted (botId (bstore w b)) (otype (ostore w r))
                (orderNumber (ostore w r)) COMPLETE"
    and m': "m' = BotPickedUp (botId (bstore w b)) (otype (ostore w r'))
                (orderNumber (ostore w r')) PROCESSING"
    and lr: "logger_returns (logger w) (calls w) [m, m']"
  shows "timerFires x w =
     (Inr (), (bound b r' ((finished b x r w)\<lparr>calls := calls w @ [m]\<rparr>))
                \<lparr>calls := calls w @ [m, m']\<rparr>)"
proof -
  let ?u = "(finished b x r w)\<lparr>calls := calls w @ [m]\<rparr>"
  from lr have l1: "\<not> logger w (calls w) m" and l2: "\<not> logger w (calls w @ [m]) m'"
    by simp_all
  have log: "call_logger m (finished b x r w) = (Inr (), ?u)"
    using l1 by (simp add: call_logger_def finished_def)
  have b: "b \<in> set (bots w)" by (rule timers_invD1(1) [OF consistentD(2) [OF ok] tm])
  have d: "distinct (bots w)" by (rule bots_invD(1) [OF consistentD(1) [OF ok]])
  have others: "\<forall>c \<in> set (bots w). c \<noteq> b \<longrightarrow> \<not> isIdle (bstore ?u c)"
    using busy by (simp add: finished_def)
  have me: "isIdle (bstore ?u b)" by (simp add: finished_def isIdle_def)
  have "filter (\<lambda>c. isIdle (bstore ?u c)) (bots w) = [b]"
    by (rule filter_single [OF d b me others])
  then have idle: "filter (\<lambda>c. isIdle (bstore ?u c)) (bots ?u) = [b]"
    by (simp add: finished_def)
  have qu: "orders (orderQueue ?u) = r' # q" using q by (simp add: finished_def)
  have bs: "bindings ?u = [(b, r')]"
    unfolding bindings_def idle getAll_def qu by simp
  have pm: "pass_messages ?u = [m']"
    unfolding pass_messages_def bs by (simp add: pickup_message_def finished_def m')
  have lu: "logger_returns (logger ?u) (calls ?u) (pass_messages ?u)"
    unfolding pm using l2 by (simp add: finished_def)
  have du: "distinct (bots ?u)" using d by (simp add: finished_def)
  have pk: "BotPickedUp (botId (bstore ?u b)) (otype (ostore ?u r')) (orderNumber (ostore ?u r'))
      PROCESSING = m'"
    by (simp add: finished_def m')
  have cu: "calls ?u = calls w @ [m]" by simp
  have pass: "assignOrdersToIdleBots ?u =
      (Inr (), (bound b r' ?u)\<lparr>calls := calls w @ [m, m']\<rparr>)"
    unfolding assign_bind_all [OF du lu] bs bind_all.simps pk cu by simp
  have after: "\<not> isIdle (bstore (bound b r' ?u) b)"
    by (simp add: bound_def isIdle_def)
  show ?thesis
    unfolding timerFires_finished [OF tm pt cur] m [symmetric]
    by (simp add: andThen_def log pass after)
qed

lemma bound_fields:
  "bstatus (bstore ((bound b r v)\<lparr>calls := c\<rparr>) b) = BOT_PROCESSING"
  "currentOrder (bstore ((bound b r v)\<lparr>calls := c\<rparr>) b) = Some r"
  "ostatus (ostore ((bound b r v)\<lparr>calls := c\<rparr>) r) = PROCESSING"
  "orders (orderQueue ((bound b r v)\<lparr>calls := c\<rparr>)) = tl (orders (orderQueue v))"
  "processingTimeout (bstore ((bound b r v)\<lparr>calls := c\<rparr>) b) = Some (tnew v)"
  "timers ((bound b r v)\<lparr>calls := c\<rparr>) (tnew v) = Some (b, Some (OnOrderCompleted b))"
  by (simp_all add: bound_def orders_dequeue)

lemma bind_all_busy:
  assumes d: "distinct (bots v)"
  shows "busy_inv (bind_all (bindings v) v)"
proof -
  let ?idle = "filter (\<lambda>b. isIdle (bstore v b)) (bots v)"
  let ?os = "orders (orderQueue v)"
  let ?v' = "bind_all (bindings v) v"
  have zs: "bindings v = zip ?idle ?os" by (simp add: bindings_def getAll_def)
  show ?thesis
  proof (cases "length ?os \<le> length ?idle")
    case True
    then have "length (bindings v) = length ?os" by (simp add: zs)
    then have "orders (orderQueue ?v') = []" by (simp add: bind_all_queue)
    then show ?thesis by (simp add: busy_inv_def isEmpty_def)
  next
    case False
    then have firsts: "map fst (bindings v) = ?idle" by (simp add: zs map_fst_zip_take)
    have "\<not> isIdle (bstore ?v' c)" if c: "c \<in> set (bots v)" for c
    proof (cases "isIdle (bstore v c)")
      case True
      with c have "c \<in> set ?idle" by simp
      then have "c \<in> set (map fst (bindings v))" unfolding firsts .
      then obtain r where r: "(c, r) \<in> set (bindings v)" by auto
      have "bstatus (bstore ?v' c) = BOT_PROCESSING"
        using bind_all_bound [OF distinct_bindings [OF d] r, of v] by simp
      then show ?thesis by (simp add: isIdle_def)
    next
      case False
      then have "c \<notin> set ?idle" by simp
      then have "c \<notin> set (map fst (bindings v))" unfolding firsts .
      then have "c \<notin> fst ` set (bindings v)" by simp
      then have "bstore ?v' c = bstore v c" by (rule bind_all_bstore)
      with False show ?thesis by simp
    qed
    then show ?thesis by (simp add: busy_inv_def bind_all_same)
  qed
qed

lemma busy_inv_calls: "busy_inv (v\<lparr>calls := c\<rparr>) = busy_inv v"
  by (simp add: busy_inv_def)

lemma pass_busy:
  assumes d: "distinct (bots v)"
  shows "busy_inv (bind_all (bindings v) (v\<lparr>calls := c\<rparr>))"
  using bind_all_busy [of "v\<lparr>calls := c\<rparr>"] d by (simp add: bindings_calls)

lemma stable_logger: "stable (\<lambda>v. consistent v \<and> logger v = lg)"
proof (rule stableI)
  show "loop_stable (\<lambda>v. consistent v \<and> logger v = lg)"
    by (rule loop_stableI) (simp_all add: consistent_bound, simp add: bound_def)
next
  fix w ty assume "consistent w \<and> logger w = lg"
  then show "consistent (created ty w) \<and> logger (created ty w) = lg"
    by (simp add: consistent_created) (simp add: created_def)
next
  fix w assume "consistent w \<and> logger w = lg"
  then show "consistent (added w) \<and> logger (added w) = lg"
    by (simp add: consistent_added) (simp add: added_def)
next
  fix w assume "consistent w \<and> logger w = lg" "bots w \<noteq> []"
    "processingTimeout (bstore w (last (bots w))) = None"
    "currentOrder (bstore w (last (bots w))) = None"
  then show "consistent (popped w) \<and> logger (popped w) = lg"
    by (simp add: consistent_popped) (simp add: popped_def)
next
  fix w t r assume "consistent w \<and> logger w = lg" "bots w \<noteq> []"
    "processingTimeout (bstore w (last (bots w))) = Some t"
    "currentOrder (bstore w (last (bots w))) = Some r"
  then show "consistent (preempted t r w) \<and> logger (preempted t r w) = lg"
    by (simp add: consistent_preempted) (simp add: preempted_def)
next
  fix w b t r assume "consistent w \<and> logger w = lg"
    "timers w t = Some (b, Some (OnOrderCompleted b))"
    "processingTimeout (bstore w b) = Some t" "currentOrder (bstore w b) = Some r"
  then show "consistent (finished b t r w) \<and> logger (finished b t r w) = lg"
    by (simp add: consistent_finished) (simp add: finished_def)
qed

lemma busy_inv_popped: "busy_inv w \<Longrightarrow> busy_inv ((popped w)\<lparr>calls := c\<rparr>)"
  by (auto simp: busy_inv_def popped_def dest: in_set_butlastD)

lemma quiet_busy_step:
  assumes ok: "consistent w" and quiet: "\<forall>h m. \<not> logger w h m" and busy: "busy_inv w"
  shows "busy_inv (step e w)"
proof -
  have lr: "logger_returns (logger w) h ms" for h ms
    by (rule quiet_logger_returns) (simp add: quiet_def quiet)
  note d = bots_invD(1) [OF consistentD(1) [OF ok]]
  have create: "busy_inv (snd (createOrder ty w))" for ty
  proof -
    have dc: "distinct (bots (created ty w))" using d by (simp add: created_def)
    show ?thesis
      unfolding createOrder_returns [OF d lr] snd_conv by (rule pass_busy [OF dc])
  qed
  show ?thesis
  proof (cases e)
    case CreateNormalOrder
    with create show ?thesis by (simp add: createNormalOrder_def)
  next
    case CreateVIPOrder
    with create show ?thesis by (simp add: createVIPOrder_def)
  next
    case AddBot
    have da: "distinct (bots (added w))"
      by (rule bots_invD(1) [OF consistentD(1) [OF consistent_added [OF ok]]])
    have "busy_inv (snd (addBot w))"
      unfolding addBot_returns [OF ok lr] snd_conv by (rule pass_busy [OF da])
    with AddBot show ?thesis by simp
  next
    case RemoveBot
    have "busy_inv (snd (removeBot w))"
    proof (cases "bots w = []")
      case True
      with busy show ?thesis by (simp add: removeBot_empty)
    next
      case ne: False
      show ?thesis
      proof (cases "currentOrder (bstore w (last (bots w)))")
        case None
        show ?thesis
          unfolding removeBot_idle_logged [OF ne None ok] snd_conv
          by (rule busy_inv_popped [OF busy])
      next
        case (Some t)
        from holder_busy(2) [OF ok Some]
        obtain h where h: "processingTimeout (bstore w (last (bots w))) = Some h" ..
        have dp: "distinct (bots (preempted h t w))"
          by (rule bots_invD(1) [OF consistentD(1) [OF consistent_preempted [OF ok ne h Some]]])
        show ?thesis
          unfolding removeBot_returns [OF ok ne h Some lr] snd_conv by (rule pass_busy [OF dp])
      qed
    qed
    with RemoveBot show ?thesis by simp
  next
    case (TimerFires x)
    have "busy_inv (snd (timerFires x w))"
      using ok
    proof (cases rule: timer_cases [where t = x])
      case 1
      with busy show ?thesis by (simp add: timerFires_idle)
    next
      case (2 b r)
      let ?m = "BotCompleted (botId (bstore w b)) (otype (ostore w r)) (orderNumber (ostore w r))
                  COMPLETE"
      let ?u = "(finished b x r w)\<lparr>calls := calls w @ [?m]\<rparr>"
      have l: "\<not> logger w (calls w) ?m" using quiet by simp
      from timerFires_runs_pass [OF 2 l refl]
      obtain c where c: "snd (timerFires x w) = (snd (assignOrdersToIdleBots ?u))\<lparr>calls := c\<rparr>" ..
      have du: "distinct (bots ?u)" using d by (simp add: finished_def)
      have "quiet ?u" using quiet by (simp add: quiet_def finished_def)
      then have lu: "logger_returns (logger ?u) (calls ?u) (pass_messages ?u)"
        by (rule quiet_logger_returns)
      have "busy_inv (bind_all (bindings ?u) ?u)" by (rule bind_all_busy [OF du])
      then show ?thesis
        unfolding c assign_bind_all [OF du lu] snd_conv by (simp only: busy_inv_calls)
    qed
    with TimerFires show ?thesis by simp
  qed
qed

lemma quiet_busy_reachable:
  assumes quiet: "\<forall>h m. \<not> lg h m"
  shows "busy_inv (run es (newController lg))"
proof -
  have keep: "consistent (run es w) \<and> logger (run es w) = lg \<and> busy_inv (run es w)"
    if "consistent w \<and> logger w = lg \<and> busy_inv w" for w
    using that
  proof (induction es arbitrary: w)
    case Nil
    then show ?case by simp
  next
    case (Cons e es)
    from Cons.prems have ok: "consistent w" and lg: "logger w = lg" and busy: "busy_inv w"
      by simp_all
    have q: "\<forall>h m. \<not> logger w h m" using quiet lg by simp
    have 1: "consistent (step e w) \<and> logger (step e w) = lg"
      by (rule stable_step [OF stable_logger]) (simp add: ok lg)
    have 2: "busy_inv (step e w)" by (rule quiet_busy_step [OF ok q busy])
    from 1 2 have "consistent (step e w) \<and> logger (step e w) = lg \<and> busy_inv (step e w)"
      by simp
    from Cons.IH [OF this] show ?case by simp
  qed
  have "consistent (newController lg) \<and> logger (newController lg) = lg \<and>
      busy_inv (newController lg)"
    by (simp add: consistent_new) (simp add: newController_def busy_inv_def isEmpty_def
        newOrderQueue_def)
  from keep [OF this] show ?thesis by simp
qed

theorem timer_completion_logger_throws_counterexample:
  "timers example_busy_throw_run 0 = Some (0, Some (OnOrderCompleted 0))
   \<and> currentOrder (bstore example_busy_throw_run 0) = Some 1
   \<and> getPendingOrders example_busy_throw_run = [0]
   \<and> fst (timerFires 0 example_busy_throw_run) = Inl LoggerError
   \<and> ostatus (ostore (snd (timerFires 0 example_busy_throw_run)) 1) = COMPLETE
   \<and> completedOrders (snd (timerFires 0 example_busy_throw_run)) = [1]
   \<and> bstatus (bstore (snd (timerFires 0 example_busy_throw_run)) 0) = IDLE
   \<and> currentOrder (bstore (snd (timerFires 0 example_busy_throw_run)) 0) = None
   \<and> getPendingOrders (snd (timerFires 0 example_busy_throw_run)) = [0]
   \<and> timers example_idle_first_run 1 = Some (1, Some (OnOrderCompleted 1))
   \<and> currentOrder (bstore example_idle_first_run 1) = Some 1
   \<and> bstatus (bstore example_idle_first_run 0) = IDLE
   \<and> getPendingOrders example_idle_first_run = [2]
   \<and> fst (timerFires 1 example_idle_first_run) = Inr ()
   \<and> bstatus (bstore (snd (timerFires 1 example_idle_first_run)) 1) = IDLE
   \<and> currentOrder (bstore (snd (timerFires 1 example_idle_first_run)) 1) = None
   \<and> currentOrder (bstore (snd (timerFires 1 example_idle_first_run)) 0) = Some 2"
  unfolding example_busy_throw_run_def example_idle_first_run_def
  by (simp add: eval_defs picky_def grudging_def)

text \<open>Claim C6, as amended. In every state a controller reaches, when the pending timeout
  \<open>x\<close> of a bot \<open>b\<close> that processes the order \<open>r\<close> expires, the order is marked \<open>COMPLETE\<close> and
  appended to the completed list, whatever the logger does; if the logger returns from the
  completion message, an assignment pass is run next (the state afterwards is the one the
  pass leaves, up to the logged messages). If moreover an order \<open>r'\<close> is at the front of the
  queue, no bot of the pool is idle, and the logger also returns from the message of the
  binding, then the expiry returns normally, \<open>b\<close> is \<open>PROCESSING\<close> again and holds \<open>r'\<close> with a
  new pending timeout, the completed list is one longer and the queue is one shorter: it
  has lost its front order. Under a logger that never throws, no bot of the pool is idle
  while an order is pending.\<close>

theorem timer_completion_then_next_order:
  fixes lg :: "message list \<Rightarrow> message \<Rightarrow> bool" and es :: "event list"
    and x :: timer and b :: bref and r :: oref
  defines "w \<equiv> run es (newController lg)"
  defines "w' \<equiv> snd (timerFires x w)"
  defines "m \<equiv> BotCompleted (botId (bstore w b)) (otype (ostore w r)) (orderNumber (ostore w r))
                 COMPLETE"
  assumes tm: "timers w x = Some (b, cb)" and cur: "currentOrder (bstore w b) = Some r"
  shows "cb = Some (OnOrderCompleted b)
       \<and> ostatus (ostore w' r) = COMPLETE
       \<and> completedOrders w' = completedOrders w @ [r]
       \<and> (\<not> logger w (calls w) m \<longrightarrow>
            (\<exists>c. w' = (snd (assignOrdersToIdleBots
                     ((finished b x r w)\<lparr>calls := calls w @ [m]\<rparr>)))\<lparr>calls := c\<rparr>))
       \<and> (getPendingOrders w = r' # q \<and> (\<forall>c \<in> set (bots w). \<not> isIdle (bstore w c)) \<and>
          logger_returns (logger w) (calls w)
            [m, BotPickedUp (botId (bstore w b)) (otype (ostore w r'))
                  (orderNumber (ostore w r')) PROCESSING] \<longrightarrow>
            fst (timerFires x w) = Inr () \<and>
            bstatus (bstore w' b) = BOT_PROCESSING \<and>
            currentOrder (bstore w' b) = Some r' \<and>
            ostatus (ostore w' r') = PROCESSING \<and>
            (\<exists>y. processingTimeout (bstore w' b) = Some y \<and>
                 timers w' y = Some (b, Some (OnOrderCompleted b))) \<and>
            getPendingOrders w' = q \<and>
            length (completedOrders w') = length (completedOrders w) + 1 \<and>
            queue_size (orderQueue w') + 1 = queue_size (orderQueue w))
       \<and> ((\<forall>h m. \<not> lg h m) \<and> getPendingOrders w \<noteq> [] \<longrightarrow>
            (\<forall>c \<in> set (bots w). \<not> isIdle (bstore w c)))"
proof -
  have ok: "consistent w" unfolding w_def by (rule consistent_reachable)
  note T = timers_invD1 [OF consistentD(2) [OF ok] tm]
  note cb = T(3)
  note pt = T(2)
  have tm': "timers w x = Some (b, Some (OnOrderCompleted b))" using tm cb by simp
  have me: "m = BotCompleted (botId (bstore w b)) (otype (ostore w r)) (orderNumber (ostore w r))
                 COMPLETE"
    by (simp add: m_def)
  have 2: "ostatus (ostore w' r) = COMPLETE"
    unfolding w'_def by (rule timerFires_completes(1) [OF ok tm' pt cur])
  have 3: "completedOrders w' = completedOrders w @ [r]"
    unfolding w'_def by (rule timerFires_completes(2) [OF ok tm' pt cur])
  have 4: "\<exists>c. w' = (snd (assignOrdersToIdleBots
                     ((finished b x r w)\<lparr>calls := calls w @ [m]\<rparr>)))\<lparr>calls := c\<rparr>"
    if "\<not> logger w (calls w) m"
    unfolding w'_def by (rule timerFires_runs_pass [OF tm' pt cur that me])
  have 5: "fst (timerFires x w) = Inr () \<and>
            bstatus (bstore w' b) = BOT_PROCESSING \<and>
            currentOrder (bstore w' b) = Some r' \<and>
            ostatus (ostore w' r') = PROCESSING \<and>
            (\<exists>y. processingTimeout (bstore w' b) = Some y \<and>
                 timers w' y = Some (b, Some (OnOrderCompleted b))) \<and>
            getPendingOrders w' = q \<and>
            length (completedOrders w') = length (completedOrders w) + 1 \<and>
            queue_size (orderQueue w') + 1 = queue_size (orderQueue w)"
    if h: "getPendingOrders w = r' # q \<and> (\<forall>c \<in> set (bots w). \<not> isIdle (bstore w c)) \<and>
          logger_returns (logger w) (calls w)
            [m, BotPickedUp (botId (bstore w b)) (otype (ostore w r'))
                  (orderNumber (ostore w r')) PROCESSING]"
  proof -
    let ?u = "(finished b x r w)\<lparr>calls := calls w @ [m]\<rparr>"
    let ?m' = "BotPickedUp (botId (bstore w b)) (otype (ostore w r'))
                  (orderNumber (ostore w r')) PROCESSING"
    from h have q: "orders (orderQueue w) = r' # q"
      by (simp add: getPendingOrders_def getAll_def)
    note busy = h [THEN conjunct2, THEN conjunct1]
    note lr = h [THEN conjunct2, THEN conjunct2]
    have eq: "timerFires x w = (Inr (), (bound b r' ?u)\<lparr>calls := calls w @ [m, ?m']\<rparr>)"
      by (rule timerFires_next [OF ok tm' pt cur q busy me refl lr])
    have w': "w' = (bound b r' ?u)\<lparr>calls := calls w @ [m, ?m']\<rparr>"
      by (simp add: w'_def eq)
    have a: "fst (timerFires x w) = Inr ()" by (simp add: eq)
    have b: "bstatus (bstore w' b) = BOT_PROCESSING" unfolding w' by (rule bound_fields(1))
    have c: "currentOrder (bstore w' b) = Some r'" unfolding w' by (rule bound_fields(2))
    have d: "ostatus (ostore w' r') = PROCESSING" unfolding w' by (rule bound_fields(3))
    have e: "\<exists>y. processingTimeout (bstore w' b) = Some y \<and>
                 timers w' y = Some (b, Some (OnOrderCompleted b))"
      unfolding w' using bound_fields(5,6) by blast
    have qu: "orders (orderQueue ?u) = r' # q" using q by (simp add: finished_def)
    have "orders (orderQueue w') = q" unfolding w' bound_fields(4) qu by simp
    then have f: "getPendingOrders w' = q" by (simp add: getPendingOrders_def getAll_def)
    have g: "length (completedOrders w') = length (completedOrders w) + 1" by (simp add: 3)
    have i: "queue_size (orderQueue w') + 1 = queue_size (orderQueue w)"
      using f q by (simp add: queue_size_def getPendingOrders_def getAll_def)
    show ?thesis by (intro conjI a b c d e f g i)
  qed
  from 4 have c4: "\<not> logger w (calls w) m \<longrightarrow>
            (\<exists>c. w' = (snd (assignOrdersToIdleBots
                     ((finished b x r w)\<lparr>calls := calls w @ [m]\<rparr>)))\<lparr>calls := c\<rparr>)"
    by (rule impI)
  have c5: "getPendingOrders w = r' # q \<and> (\<forall>c \<in> set (bots w). \<not> isIdle (bstore w c)) \<and>
          logger_returns (logger w) (calls w)
            [m, BotPickedUp (botId (bstore w b)) (otype (ostore w r'))
                  (orderNumber (ostore w r')) PROCESSING] \<longrightarrow>
            fst (timerFires x w) = Inr () \<and>
            bstatus (bstore w' b) = BOT_PROCESSING \<and>
            currentOrder (bstore w' b) = Some r' \<and>
            ostatus (ostore w' r') = PROCESSING \<and>
            (\<exists>y. processingTimeout (bstore w' b) = Some y \<and>
                 timers w' y = Some (b, Some (OnOrderCompleted b))) \<and>
            getPendingOrders w' = q \<and>
            length (completedOrders w') = length (completedOrders w) + 1 \<and>
            queue_size (orderQueue w') + 1 = queue_size (orderQueue w)"
    by (rule impI) (rule 5)
  have c6: "(\<forall>h m. \<not> lg h m) \<and> getPendingOrders w \<noteq> [] \<longrightarrow>
            (\<forall>c \<in> set (bots w). \<not> isIdle (bstore w c))"
  proof (rule impI)
    assume a: "(\<forall>h m. \<not> lg h m) \<and> getPendingOrders w \<noteq> []"
    have "busy_inv w" unfolding w_def by (rule quiet_busy_reachable [OF a [THEN conjunct1]])
    moreover from a have "\<not> isEmpty (orderQueue w)"
      by (simp add: getPendingOrders_def getAll_def isEmpty_def)
    ultimately show "\<forall>c \<in> set (bots w). \<not> isIdle (bstore w c)"
      by (simp add: busy_inv_def)
  qed
  show ?thesis
    by (rule conjI [OF cb conjI [OF 2 conjI [OF 3 conjI [OF c4 conjI [OF c5 c6]]]]])
qed

lemma example_pending_run_facts:
  "timers example_pending_run 0 = Some (0, Some (OnOrderCompleted 0))"
  "currentOrder (bstore example_pending_run 0) = Some 0"
  "getPendingOrders example_pending_run = [Suc 0, 2]"
  "bots example_pending_run = [0]"
  "\<not> isIdle (bstore example_pending_run 0)"
  "logger example_pending_run = silent"
  "completedOrders example_pending_run = []"
  "queue_size (orderQueue example_pending_run) = 2"
  unfolding example_pending_run_def by (simp_all add: eval_defs)

theorem timer_completion_then_next_order_witness:
  "timers example_pending_run 0 = Some (0, Some (OnOrderCompleted 0))
   \<and> currentOrder (bstore example_pending_run 0) = Some 0
   \<and> getPendingOrders example_pending_run = [1, 2]
   \<and> bots example_pending_run = [0]
   \<and> \<not> isIdle (bstore example_pending_run 0)
   \<and> fst (timerFires 0 example_pending_run) = Inr ()
   \<and> ostatus (ostore (snd (timerFires 0 example_pending_run)) 0) = COMPLETE
   \<and> completedOrders (snd (timerFires 0 example_pending_run)) = [0]
   \<and> bstatus (bstore (snd (timerFires 0 example_pending_run)) 0) = BOT_PROCESSING
   \<and> currentOrder (bstore (snd (timerFires 0 example_pending_run)) 0) = Some 1
   \<and> ostatus (ostore (snd (timerFires 0 example_pending_run)) 1) = PROCESSING
   \<and> getPendingOrders (snd (timerFires 0 example_pending_run)) = [2]
   \<and> queue_size (orderQueue (snd (timerFires 0 example_pending_run))) = 1"
  using timer_completion_then_next_order
    [where es = "[AddBot, CreateNormalOrder, CreateVIPOrder, CreateNormalOrder]"
       and lg = silent and x = 0 and b = 0 and cb = "Some (OnOrderCompleted 0)" and r = 0
       and r' = 1 and q = "[2]", folded example_pending_run_def]
  by (simp add: example_pending_run_facts silent_def)

end
